theory Spec2Isabelle
  imports Main
begin

section \<open>Python objects\<close>

text \<open>
  The embedding follows \<^verbatim>\<open>dlt/extract/pipe.py\<close>. Python objects that the module
  handles are split in two layers, because a transform step is a function on items:
  \<^item> \<open>item\<close>: what flows through a pipe (data, iterators, deferred work, awaitables,
    the \<^verbatim>\<open>DataItemWithMeta\<close> wrapper and \<^verbatim>\<open>ResolvablePipeItem\<close> tuples);
  \<^item> \<open>step\<close>: what a pipe stores in \<^verbatim>\<open>_steps\<close> (any item, a function with a
    signature, or a \<^verbatim>\<open>ForkPipe\<close>).
  Pipes are mutable objects compared by identity, so they are referred to by address.
\<close>

datatype exn =
    StopIteration
  | TypeError string
  | IndexError
  | AssertionError
  | CreatePipeException string string
  | InvalidStepFunctionArguments string string
  | InvalidTransformerGeneratorFunction string
  | ParametrizedResourceUnbound string string
  | PipeItemProcessingError string
  | PipeNotBoundToData string bool
  | OtherException string
  | BaseOnly string

text \<open>
  \<open>OtherException\<close> stands for any other subclass of \<^verbatim>\<open>Exception\<close> raised by user
  code; \<open>BaseOnly\<close> for a \<^verbatim>\<open>BaseException\<close> that is not an \<^verbatim>\<open>Exception\<close>
  (\<^verbatim>\<open>KeyboardInterrupt\<close>, \<^verbatim>\<open>SystemExit\<close>), which \<^verbatim>\<open>except Exception\<close> lets pass.
\<close>

fun is_TypeError :: "exn \<Rightarrow> bool" where
  "is_TypeError (TypeError m) = True"
| "is_TypeError e = False"

fun is_Exception :: "exn \<Rightarrow> bool" where
  "is_Exception (BaseOnly m) = False"
| "is_Exception e = True"

type_synonym pref = nat

text \<open>
  An iterator \<open>IIter f k\<close> has been advanced \<open>k\<close> times; its next \<^verbatim>\<open>next()\<close> gives
  \<open>f k\<close>: \<open>None\<close> is \<^verbatim>\<open>StopIteration\<close>, \<open>Some (Inl e)\<close> raises \<open>e\<close>, \<open>Some (Inr v)\<close>
  yields \<open>v\<close>. \<open>IThunk r\<close> is a callable taking no argument whose call ends as \<open>r\<close>;
  \<open>ICoro r\<close> is an awaitable that ends as \<open>r\<close> (\<open>None\<close>: cancelled).
\<close>

datatype item =
    INone
  | IInt int
  | IStr string
  | IList "item list"
  | IPipe pref
  | IIter "nat \<Rightarrow> (exn + item) option" nat
  | IThunk "exn + item"
  | ICoro "(exn + item) option"
  | IWithMeta item item
  | IResolvable item int pref item

fun is_Iterator :: "item \<Rightarrow> bool" where
  "is_Iterator (IIter f k) = True"
| "is_Iterator x = False"

fun is_Iterable :: "item \<Rightarrow> bool" where
  "is_Iterable (IIter f k) = True"
| "is_Iterable (IList xs) = True"
| "is_Iterable (IStr s) = True"
| "is_Iterable (IResolvable x st p m) = True"
| "is_Iterable x = False"

fun is_Awaitable :: "item \<Rightarrow> bool" where
  "is_Awaitable (ICoro r) = True"
| "is_Awaitable x = False"

fun item_callable :: "item \<Rightarrow> bool" where
  "item_callable (IThunk r) = True"
| "item_callable x = False"

definition iter_of_list :: "item list \<Rightarrow> item" where
  "iter_of_list xs = IIter (\<lambda>k. if k < length xs then Some (Inr (xs ! k)) else None) 0"

text \<open>\<^verbatim>\<open>iter(x)\<close> on an iterable: an iterator is its own iterator.\<close>

fun py_iter :: "item \<Rightarrow> item" where
  "py_iter (IIter f k) = IIter f k"
| "py_iter (IList xs) = iter_of_list xs"
| "py_iter (IStr s) = iter_of_list (map (\<lambda>c. IStr [c]) s)"
| "py_iter (IResolvable x st p m) = iter_of_list [x, IInt st, IPipe p, m]"
| "py_iter x = x"

subsection \<open>Signatures and calls\<close>

datatype param_kind =
  POSITIONAL_ONLY | POSITIONAL_OR_KEYWORD | VAR_POSITIONAL | KEYWORD_ONLY | VAR_KEYWORD

datatype param = Param (pname: string) (pkind: param_kind) (has_default: bool)

text \<open>The arguments of a call: the positional ones, and the keyword \<^verbatim>\<open>meta\<close> if given.\<close>

datatype call_args = Args "item list" "item option"

datatype step =
    Obj item
  | Fun "param list" "call_args \<Rightarrow> exn + item"
  | Fork "(pref \<times> int) list" bool

text \<open>
  \<^verbatim>\<open>inspect.Signature.bind\<close> for \<open>npos\<close> positional arguments and the keyword names
  \<open>kws\<close>: positional arguments fill the positional parameters in order (the surplus
  needs \<^verbatim>\<open>*args\<close>), a keyword needs an unfilled parameter of its name that accepts
  keywords (or \<^verbatim>\<open>**kwargs\<close>, unless it repeats a filled parameter), and every
  parameter left over needs a default.
\<close>

definition positional :: "param \<Rightarrow> bool" where
  "positional p = (pkind p = POSITIONAL_ONLY \<or> pkind p = POSITIONAL_OR_KEYWORD)"

definition by_keyword :: "param \<Rightarrow> bool" where
  "by_keyword p = (pkind p = POSITIONAL_OR_KEYWORD \<or> pkind p = KEYWORD_ONLY)"

definition sig_bind :: "param list \<Rightarrow> nat \<Rightarrow> string list \<Rightarrow> bool" where
  "sig_bind ps npos kws =
     (let filled = take npos (filter positional ps);
          unfilled = drop npos (filter positional ps) @ filter (\<lambda>p. pkind p = KEYWORD_ONLY) ps;
          var_pos = list_ex (\<lambda>p. pkind p = VAR_POSITIONAL) ps;
          var_kw = list_ex (\<lambda>p. pkind p = VAR_KEYWORD) ps
      in (npos \<le> length (filter positional ps) \<or> var_pos)
         \<and> list_all (\<lambda>k. list_ex (\<lambda>p. pname p = k \<and> by_keyword p) unfilled
                          \<or> (var_kw \<and> \<not> list_ex (\<lambda>p. pname p = k \<and> by_keyword p) filled)) kws
         \<and> list_all (\<lambda>p. has_default p \<or> (by_keyword p \<and> pname p \<in> set kws)) unfilled)"

fun nargs :: "call_args \<Rightarrow> nat" where
  "nargs (Args pos kw) = length pos"

fun kwnames :: "call_args \<Rightarrow> string list" where
  "kwnames (Args pos None) = []"
| "kwnames (Args pos (Some m)) = [''meta'']"

fun step_iterable :: "step \<Rightarrow> bool" where
  "step_iterable (Obj x) = is_Iterable x"
| "step_iterable s = False"

fun step_iterator :: "step \<Rightarrow> bool" where
  "step_iterator (Obj x) = is_Iterator x"
| "step_iterator s = False"

fun step_callable :: "step \<Rightarrow> bool" where
  "step_callable (Obj x) = item_callable x"
| "step_callable s = True"

text \<open>\<^verbatim>\<open>inspect.signature\<close> of a callable; \<^verbatim>\<open>ForkPipe.__call__(self, item, meta)\<close>.\<close>

fun signature :: "step \<Rightarrow> param list" where
  "signature (Fun ps body) = ps"
| "signature (Fork es cof) =
     [Param ''item'' POSITIONAL_OR_KEYWORD False, Param ''meta'' POSITIONAL_OR_KEYWORD False]"
| "signature (Obj x) = []"

subsection \<open>ForkPipe\<close>

text \<open>
  \<^verbatim>\<open>pipe not in self._pipes\<close> compares a \<^verbatim>\<open>Pipe\<close> with the \<^verbatim>\<open>(pipe, step)\<close> tuples of
  the list; \<^verbatim>\<open>Pipe\<close> defines no \<^verbatim>\<open>__eq__\<close>, so the comparison is by identity and a
  pipe never equals a tuple.
\<close>

definition pipe_eq_edge :: "pref \<Rightarrow> pref \<times> int \<Rightarrow> bool" where
  "pipe_eq_edge p e = False"

definition add_pipe :: "(pref \<times> int) list \<Rightarrow> pref \<Rightarrow> int \<Rightarrow> (pref \<times> int) list" where
  "add_pipe es p st = (if \<not> list_ex (pipe_eq_edge p) es then es @ [(p, st)] else es)"

definition has_pipe :: "(pref \<times> int) list \<Rightarrow> pref \<Rightarrow> bool" where
  "has_pipe es p = (p \<in> set (map fst es))"

text \<open>\<^verbatim>\<open>ForkPipe(pipe, step, copy_on_fork)\<close>: an empty edge list, then \<^verbatim>\<open>add_pipe\<close>.\<close>

definition ForkPipe :: "pref \<Rightarrow> int \<Rightarrow> bool \<Rightarrow> step" where
  "ForkPipe p st cof = Fork (add_pipe [] p st) cof"

text \<open>
  \<^verbatim>\<open>ForkPipe.__call__\<close> is a generator; \<open>fork_items\<close> lists what it yields, the loop
  of \<^verbatim>\<open>enumerate(self._pipes)\<close> with its index \<open>i\<close>. \<open>cp\<close> is \<^verbatim>\<open>copy.copy\<close>, a
  parameter of the model.
\<close>

fun fork_items ::
  "(item \<Rightarrow> item) \<Rightarrow> bool \<Rightarrow> item \<Rightarrow> item \<Rightarrow> nat \<Rightarrow> (pref \<times> int) list \<Rightarrow> item list" where
  "fork_items cp cof it meta i [] = []"
| "fork_items cp cof it meta i ((pipe, st) # es) =
     IResolvable (if i = 0 \<or> \<not> cof then it else cp it) st pipe meta
       # fork_items cp cof it meta (Suc i) es"

definition fork_call :: "(item \<Rightarrow> item) \<Rightarrow> (pref \<times> int) list \<Rightarrow> bool \<Rightarrow> item \<Rightarrow> item \<Rightarrow> item list" where
  "fork_call cp es cof it meta = fork_items cp cof it meta 0 es"

text \<open>
  Calling a step: the arguments are bound to the signature first (a mismatch is the
  \<^verbatim>\<open>TypeError\<close> Python raises before the body runs), then the body runs.
\<close>

fun step_call :: "(item \<Rightarrow> item) \<Rightarrow> step \<Rightarrow> call_args \<Rightarrow> exn + item" where
  "step_call cp (Fun ps body) a =
     (if sig_bind ps (nargs a) (kwnames a) then body a else Inl (TypeError ''signature''))"
| "step_call cp (Fork es cof) (Args [x] (Some m)) = Inr (iter_of_list (fork_call cp es cof x m))"
| "step_call cp (Fork es cof) a = Inl (TypeError ''signature'')"
| "step_call cp (Obj (IThunk r)) (Args [] None) = r"
| "step_call cp (Obj x) a = Inl (TypeError ''signature'')"

subsection \<open>Python lists indexed by integers\<close>

text \<open>A subscript counts from the end when negative and fails out of range.\<close>

definition py_index :: "'a list \<Rightarrow> int \<Rightarrow> nat option" where
  "py_index xs i =
     (let n = int (length xs); j = (if i < 0 then i + n else i)
      in if 0 \<le> j \<and> j < n then Some (nat j) else None)"

text \<open>\<^verbatim>\<open>list.insert\<close> clamps its index to the list instead of failing.\<close>

definition py_insert :: "'a list \<Rightarrow> int \<Rightarrow> 'a \<Rightarrow> 'a list" where
  "py_insert xs i x =
     (let n = int (length xs); j = (if i < 0 then max 0 (i + n) else min i n)
      in take (nat j) xs @ x # drop (nat j) xs)"

definition py_pop :: "'a list \<Rightarrow> int \<Rightarrow> 'a list option" where
  "py_pop xs i = (case py_index xs i of None \<Rightarrow> None
                  | Some k \<Rightarrow> Some (take k xs @ drop (Suc k) xs))"

section \<open>Pipe\<close>

record pipe =
  name :: string
  gen_idx :: int
  steps :: "step list"
  pipe_id :: "string \<times> nat"
  parent :: "pref option"

definition has_parent :: "pipe \<Rightarrow> bool" where
  "has_parent p = (parent p \<noteq> None)"

definition is_empty :: "pipe \<Rightarrow> bool" where
  "is_empty p = (length (steps p) = 0)"

definition gen :: "pipe \<Rightarrow> exn + step" where
  "gen p = (case py_index (steps p) (gen_idx p) of None \<Rightarrow> Inl IndexError
            | Some k \<Rightarrow> Inr (steps p ! k))"

definition tail :: "pipe \<Rightarrow> exn + step" where
  "tail p = (case py_index (steps p) (- 1) of None \<Rightarrow> Inl IndexError
             | Some k \<Rightarrow> Inr (steps p ! k))"

definition verify_head_step :: "pipe \<Rightarrow> step \<Rightarrow> exn + unit" where
  "verify_head_step p s =
     (if \<not> step_iterable s \<and> \<not> step_callable s
      then Inl (CreatePipeException (name p) ''A head of a resource pipe must be Iterable, Iterator or a Callable'')
      else Inr ())"

definition ensure_transform_step :: "pipe \<Rightarrow> int \<Rightarrow> step \<Rightarrow> exn + unit" where
  "ensure_transform_step p step_no s =
     (if \<not> step_callable s then Inl AssertionError
      else if sig_bind (signature s) 1 [''meta''] then Inr ()
      else if step_no = gen_idx p then
        (if length (signature s) = 0 then Inl (InvalidTransformerGeneratorFunction (name p))
         else Inl (ParametrizedResourceUnbound (name p) ''transformer''))
      else Inl (InvalidStepFunctionArguments (name p) ''signature''))"

text \<open>
  The wrapper \<^verbatim>\<open>makefun.wraps(step, append_args=meta)(_partial)\<close>: the signature of
  the step with a keyword-only \<^verbatim>\<open>meta\<close> (default \<^verbatim>\<open>None\<close>) appended; the call drops
  \<^verbatim>\<open>meta\<close> and calls the original step.
\<close>

fun wrap_meta :: "step \<Rightarrow> step" where
  "wrap_meta (Fun ps body) =
     Fun (ps @ [Param ''meta'' KEYWORD_ONLY True])
         (\<lambda>a. case a of Args pos kw \<Rightarrow>
                 if sig_bind ps (length pos) [] then body (Args pos None)
                 else Inl (TypeError ''signature''))"
| "wrap_meta s = s"

definition wrap_transform_step_meta :: "pipe \<Rightarrow> int \<Rightarrow> step \<Rightarrow> exn + step" where
  "wrap_transform_step_meta p step_no s =
     (if step_iterable s then
        (if has_parent p
         then Inl (CreatePipeException (name p) ''Iterable or Iterator cannot be a step in transformer pipe'')
         else Inl (CreatePipeException (name p) ''Iterable or Iterator can only be a first step in resource pipe''))
      else if \<not> step_callable s then
        Inl (CreatePipeException (name p) ''Pipe step must be a callable taking one data item as argument and optional second meta argument'')
      else if length (signature s) = 0 then
        Inl (InvalidStepFunctionArguments (name p) ''Function takes no arguments'')
      else
        (case find (\<lambda>q. pname q = ''meta'') (signature s) of
           Some m \<Rightarrow>
             if \<not> by_keyword m
             then Inl (InvalidStepFunctionArguments (name p) ''meta cannot be pos only argument'')
             else if \<not> is_empty p then
               (case ensure_transform_step p step_no s of Inl e \<Rightarrow> Inl e | Inr u \<Rightarrow> Inr s)
             else Inr s
         | None \<Rightarrow>
             (let s' = (if length (signature s) = 1 then wrap_meta s else s)
              in if \<not> is_empty p then
                   (case ensure_transform_step p step_no s' of Inl e \<Rightarrow> Inl e | Inr u \<Rightarrow> Inr s')
                 else Inr s')))"

text \<open>
  The mutating methods return what the call did (\<open>Inl\<close>: the exception raised) and the
  pipe afterwards.
\<close>

definition append_step :: "pipe \<Rightarrow> step \<Rightarrow> (exn + unit) \<times> pipe" where
  "append_step p s =
     (if length (steps p) = 0 \<and> \<not> has_parent p then
        (case verify_head_step p s of
           Inl e \<Rightarrow> (Inl e, p)
         | Inr u \<Rightarrow> (Inr (), p\<lparr>steps := steps p @ [s]\<rparr>))
      else
        (case wrap_transform_step_meta p (int (length (steps p))) s of
           Inl e \<Rightarrow> (Inl e, p)
         | Inr s' \<Rightarrow> (Inr (), p\<lparr>steps := steps p @ [s']\<rparr>)))"

definition insert_step :: "pipe \<Rightarrow> step \<Rightarrow> int \<Rightarrow> (exn + unit) \<times> pipe" where
  "insert_step p s index =
     (if length (steps p) = 0 then append_step p s
      else if index = 0 \<and> \<not> has_parent p then
        (Inl (CreatePipeException (name p) ''You cannot insert a step before head of the resource that is not a transformer''), p)
      else
        (case wrap_transform_step_meta p index s of
           Inl e \<Rightarrow> (Inl e, p)
         | Inr s' \<Rightarrow>
             (Inr (), p\<lparr>steps := py_insert (steps p) index s',
                        gen_idx := (if index \<le> gen_idx p then gen_idx p + 1 else gen_idx p)\<rparr>)))"

definition remove_step :: "pipe \<Rightarrow> int \<Rightarrow> (exn + unit) \<times> pipe" where
  "remove_step p index =
     (if index = gen_idx p then
        (Inl (CreatePipeException (name p) ''Step holds a data generator for this pipe and cannot be removed''), p)
      else
        (case py_pop (steps p) index of
           None \<Rightarrow> (Inl IndexError, p)
         | Some xs \<Rightarrow>
             (Inr (), p\<lparr>steps := xs,
                        gen_idx := (if index < gen_idx p then gen_idx p - 1 else gen_idx p)\<rparr>)))"

definition replace_gen :: "pipe \<Rightarrow> step \<Rightarrow> (exn + unit) \<times> pipe" where
  "replace_gen p g =
     (if is_empty p then (Inl AssertionError, p)
      else (case py_index (steps p) (gen_idx p) of
              None \<Rightarrow> (Inl IndexError, p)
            | Some k \<Rightarrow> (Inr (), p\<lparr>steps := (steps p)[k := g]\<rparr>)))"

text \<open>
  \<^verbatim>\<open>Pipe.fork\<close>. The \<^verbatim>\<open>ForkPipe\<close> at the tail is updated where it stands in the
  list of this pipe (the model keeps steps by value; pipes sharing one \<^verbatim>\<open>ForkPipe\<close>
  object after \<^verbatim>\<open>_clone\<close> are outside what is stated about \<open>fork\<close>).
\<close>

definition fork :: "pipe \<Rightarrow> pref \<Rightarrow> int \<Rightarrow> bool \<Rightarrow> (exn + unit) \<times> pipe" where
  "fork p child_pipe child_step copy_on_fork =
     (if length (steps p) = 0 then
        (Inl (CreatePipeException (name p) ''Cannot fork to empty pipe''), p)
      else
        (case tail p of
           Inl e \<Rightarrow> (Inl e, p)
         | Inr (Fork es cof) \<Rightarrow>
             (if \<not> has_pipe es child_pipe
              then (Inr (), p\<lparr>steps := butlast (steps p) @ [Fork (add_pipe es child_pipe child_step) cof]\<rparr>)
              else (Inr (), p))
         | Inr s \<Rightarrow> append_step p (ForkPipe child_pipe child_step copy_on_fork)))"

subsection \<open>Evaluating the head\<close>

text \<open>
  \<^verbatim>\<open>is_data_bound\<close> follows the parent links; \<open>ob\<close> gives the pipe object at an
  address. A cyclic parent chain never answers (\<open>None\<close>).
\<close>

partial_function (option) is_data_bound :: "(pref \<Rightarrow> pipe) \<Rightarrow> pipe \<Rightarrow> bool option" where
  "is_data_bound ob p =
     (case parent p of
        Some q \<Rightarrow> is_data_bound ob (ob q)
      | None \<Rightarrow> Some (\<not> is_empty p))"

definition evaluate_gen ::
  "(item \<Rightarrow> item) \<Rightarrow> (pref \<Rightarrow> pipe) \<Rightarrow> pipe \<Rightarrow> ((exn + unit) \<times> pipe) option" where
  "evaluate_gen cp ob p =
     (case is_data_bound ob p of
        None \<Rightarrow> None
      | Some bound \<Rightarrow> Some
         (if \<not> bound then (Inl (PipeNotBoundToData (name p) (has_parent p)), p)
          else
            (case gen p of
               Inl e \<Rightarrow> (Inl e, p)
             | Inr g \<Rightarrow>
                 if \<not> has_parent p then
                   (if step_callable g then
                      (case step_call cp g (Args [] None) of
                         Inl e \<Rightarrow>
                           (if is_TypeError e
                            then (Inl (ParametrizedResourceUnbound (name p) ''resource''), p)
                            else (Inl e, p))
                       | Inr r \<Rightarrow> (Inr (), p\<lparr>steps := (steps p)[0 := Obj r]\<rparr>))
                    else if step_iterable g then
                      (case g of
                         Obj x \<Rightarrow> (Inr (), p\<lparr>steps := (steps p)[0 := Obj (py_iter x)]\<rparr>)
                       | s \<Rightarrow> (Inr (), p))
                    else (Inr (), p))
                 else
                   (case ensure_transform_step p (gen_idx p) g of
                      Inl e \<Rightarrow> (Inl e, p)
                    | Inr u \<Rightarrow> (Inr (), p)))))"

section \<open>Cloning connected pipes\<close>

text \<open>
  Pipe objects live in a heap: \<open>objs\<close> gives the object at an address and every
  address below \<open>next_id\<close> is taken. \<^verbatim>\<open>id(p)\<close> is the address.
\<close>

record heap =
  objs :: "pref \<Rightarrow> pipe"
  next_id :: pref

text \<open>
  \<^verbatim>\<open>Pipe._clone\<close>: \<^verbatim>\<open>Pipe(self.name, [], self.parent)\<close> runs the constructor
  (\<^verbatim>\<open>_gen_idx = 0\<close>, a new \<^verbatim>\<open>_pipe_id\<close>), then the steps are copied and the id kept.
\<close>

definition pipe_clone :: "heap \<Rightarrow> pref \<Rightarrow> bool \<Rightarrow> pref \<times> heap" where
  "pipe_clone h r keep_pipe_id =
     (let p = objs h r;
          a = next_id h;
          c = \<lparr>name = name p, gen_idx = 0, steps = steps p,
               pipe_id = (if keep_pipe_id then pipe_id p else (name p, a)),
               parent = parent p\<rparr>
      in (a, h\<lparr>objs := (objs h)(a := c), next_id := Suc a\<rparr>))"

text \<open>A \<^verbatim>\<open>dict\<close> as an association list; a key that is set again keeps its place.\<close>

fun dict_set :: "('k \<times> 'v) list \<Rightarrow> 'k \<Rightarrow> 'v \<Rightarrow> ('k \<times> 'v) list" where
  "dict_set [] k v = [(k, v)]"
| "dict_set ((k', v') # d) k v = (if k' = k then (k, v) # d else (k', v') # dict_set d k v)"

text \<open>\<^verbatim>\<open>[p._clone() for p in pipes]\<close>\<close>

fun clone_all :: "heap \<Rightarrow> pref list \<Rightarrow> pref list \<times> heap" where
  "clone_all h [] = ([], h)"
| "clone_all h (r # rs) =
     (case pipe_clone h r True of
        (c, h1) \<Rightarrow> (case clone_all h1 rs of (cs, h2) \<Rightarrow> (c # cs, h2)))"

text \<open>\<^verbatim>\<open>{id(p): c for p, c in zip(pipes, cloned_pipes)}\<close>\<close>

fun dict_of_zip :: "('k \<times> 'v) list \<Rightarrow> ('k \<times> 'v) list \<Rightarrow> ('k \<times> 'v) list" where
  "dict_of_zip d [] = d"
| "dict_of_zip d ((k, v) # kvs) = dict_of_zip (dict_set d k v) kvs"

text \<open>
  The \<^verbatim>\<open>while True\<close> loop of \<^verbatim>\<open>clone_pipes\<close> for one clone. \<^verbatim>\<open>not clone.parent\<close>
  is Python's truth test: \<^verbatim>\<open>Pipe\<close> defines \<^verbatim>\<open>__len__\<close> and no \<^verbatim>\<open>__bool__\<close>, so a
  parent is false when it is \<^verbatim>\<open>None\<close> and also when it is a pipe without steps.
\<close>

definition pipe_truthy :: "pipe \<Rightarrow> bool" where
  "pipe_truthy p = (length (steps p) \<noteq> 0)"

partial_function (option) fix_parents ::
  "heap \<Rightarrow> (pref \<times> pref) list \<Rightarrow> pref \<Rightarrow> (heap \<times> (pref \<times> pref) list) option" where
  "fix_parents h cloned_pairs clone =
     (case parent (objs h clone) of
        None \<Rightarrow> Some (h, cloned_pairs)
      | Some q \<Rightarrow>
          if \<not> pipe_truthy (objs h q) then Some (h, cloned_pairs)
          else if q \<in> set (map snd cloned_pairs) then Some (h, cloned_pairs)
          else
            (case map_of cloned_pairs q of
               None \<Rightarrow>
                 (case pipe_clone h q True of
                    (c, h1) \<Rightarrow>
                      fix_parents
                        (h1\<lparr>objs := (objs h1)(clone := (objs h1 clone)\<lparr>parent := Some c\<rparr>)\<rparr>)
                        (dict_set cloned_pairs q c) c)
             | Some c \<Rightarrow>
                 fix_parents
                   (h\<lparr>objs := (objs h)(clone := (objs h clone)\<lparr>parent := Some c\<rparr>)\<rparr>)
                   cloned_pairs c))"

fun clone_loop ::
  "heap \<Rightarrow> (pref \<times> pref) list \<Rightarrow> pref list \<Rightarrow> (heap \<times> (pref \<times> pref) list) option" where
  "clone_loop h d [] = Some (h, d)"
| "clone_loop h d (c # cs) =
     (case fix_parents h d c of
        None \<Rightarrow> None
      | Some (h1, d1) \<Rightarrow> clone_loop h1 d1 cs)"

definition clone_pipes :: "heap \<Rightarrow> pref list \<Rightarrow> (pref list \<times> heap) option" where
  "clone_pipes h pipes =
     (case clone_all h pipes of
        (cloned_pipes, h1) \<Rightarrow>
          (case clone_loop h1 (dict_of_zip [] (zip pipes cloned_pipes)) cloned_pipes of
             None \<Rightarrow> None
           | Some (h2, d) \<Rightarrow> Some (cloned_pipes, h2)))"

section \<open>PipeIterator\<close>

text \<open>
  \<^verbatim>\<open>ResolvablePipeItem\<close> and \<^verbatim>\<open>PipeItem\<close> are the same tuple \<^verbatim>\<open>(item, step, pipe, meta)\<close>;
  \<^verbatim>\<open>__next__\<close> returns the resolvable it holds.
\<close>

datatype pipe_item =
  PipeItem (pi_item: item) (pi_step: int) (pi_pipe: pref) (pi_meta: item)

datatype source_item = SourcePipeItem item int pref item

text \<open>
  A future is done from the clock value \<open>done_at\<close> on (\<open>None\<close>: never); its outcome is
  \<open>None\<close> when cancelled, \<open>Some (Inl e)\<close> when the work raised \<open>e\<close>, \<open>Some (Inr v)\<close> when
  it returned \<open>v\<close>.
\<close>

datatype future = Future (done_at: "nat option") (outcome: "(exn + item) option")

datatype future_item = FuturePipeItem future int pref item

text \<open>
  The dispatcher. \<open>clock\<close> counts polling intervals; \<open>latency n\<close> is how long the
  environment takes to finish the \<open>n\<close>-th piece of submitted work, and \<open>submitted\<close>
  counts the submissions. \<open>pipes\<close> gives the pipe object at an address. \<open>gen_close g\<close>
  is what \<^verbatim>\<open>close\<close> gets from the source \<open>g\<close>: \<open>Some e\<close> when \<open>g\<close> is a generator whose
  \<^verbatim>\<open>gen.close()\<close> raises \<open>e\<close>, \<open>None\<close> when \<^verbatim>\<open>gen.close()\<close> returns or \<open>g\<close> is no generator
  (\<^verbatim>\<open>inspect.isgenerator(gen)\<close> is false and nothing is called).
\<close>

record dstate =
  max_parallel_items :: int
  workers :: int
  sources :: "source_item list"
  futures :: "future_item list"
  async_pool :: bool
  thread_pool :: bool
  clock :: nat
  submitted :: nat
  latency :: "nat \<Rightarrow> nat option"
  pipes :: "pref \<Rightarrow> pipe"
  gen_close :: "item \<Rightarrow> exn option"

definition sleep :: "dstate \<Rightarrow> dstate" where
  "sleep st = st\<lparr>clock := clock st + 1\<rparr>"

fun future_done :: "nat \<Rightarrow> future \<Rightarrow> bool" where
  "future_done t (Future None r) = False"
| "future_done t (Future (Some d) r) = (d \<le> t)"

fun item_done :: "nat \<Rightarrow> future_item \<Rightarrow> bool" where
  "item_done t (FuturePipeItem f st p m) = future_done t f"

text \<open>\<^verbatim>\<open>next((i for i, val in enumerate(self._futures) if val.item.done()), -1)\<close>\<close>

fun first_done :: "nat \<Rightarrow> future_item list \<Rightarrow> nat option" where
  "first_done t [] = None"
| "first_done t (f # fs) =
     (if item_done t f then Some 0
      else (case first_done t fs of None \<Rightarrow> None | Some i \<Rightarrow> Some (Suc i)))"

definition next_future :: "dstate \<Rightarrow> int" where
  "next_future st = (case first_done (clock st) (futures st) of None \<Rightarrow> - 1 | Some i \<Rightarrow> int i)"

lemma first_done_less: "first_done t fs = Some i \<Longrightarrow> i < length fs"
  by (induction fs arbitrary: i) (auto split: if_splits option.splits)

function resolve_futures :: "dstate \<Rightarrow> (exn + pipe_item option) \<times> dstate" where
  "resolve_futures st =
     (if length (futures st) = 0 then (Inr None, st)
      else
        (case first_done (clock st) (futures st) of
           None \<Rightarrow> (Inr None, st)
         | Some idx \<Rightarrow>
             (case futures st ! idx of
                FuturePipeItem future step pipe meta \<Rightarrow>
                  (case outcome future of
                     None \<Rightarrow>
                       resolve_futures
                         (st\<lparr>futures := take idx (futures st) @ drop (Suc idx) (futures st)\<rparr>)
                   | Some (Inl e) \<Rightarrow>
                       (Inl e, st\<lparr>futures := take idx (futures st) @ drop (Suc idx) (futures st)\<rparr>)
                   | Some (Inr (IWithMeta data m)) \<Rightarrow>
                       (Inr (Some (PipeItem data step pipe m)),
                        st\<lparr>futures := take idx (futures st) @ drop (Suc idx) (futures st)\<rparr>)
                   | Some (Inr x) \<Rightarrow>
                       (Inr (Some (PipeItem x step pipe meta)),
                        st\<lparr>futures := take idx (futures st) @ drop (Suc idx) (futures st)\<rparr>)))))"
  by pat_completeness auto
termination
  by (relation "measure (\<lambda>st. length (futures st))") (auto dest: first_done_less)

declare resolve_futures.simps [simp del]

text \<open>\<^verbatim>\<open>next(gen)\<close>: what it gives and the iterator afterwards.\<close>

fun py_next :: "item \<Rightarrow> (exn + item) option \<times> item" where
  "py_next (IIter f k) = (f k, IIter f (Suc k))"
| "py_next x = (Some (Inl (TypeError ''not an iterator'')), x)"

function get_source_item :: "dstate \<Rightarrow> (exn + pipe_item option) \<times> dstate" where
  "get_source_item st =
     (if length (sources st) = 0 then (Inr None, st)
      else
        (case last (sources st) of
           SourcePipeItem g step pipe meta \<Rightarrow>
             (case py_next g of
                (None, g') \<Rightarrow> get_source_item (st\<lparr>sources := butlast (sources st)\<rparr>)
              | (Some (Inl e), g') \<Rightarrow>
                  if e = StopIteration
                  then get_source_item (st\<lparr>sources := butlast (sources st)\<rparr>)
                  else (Inl e, st\<lparr>sources := butlast (sources st) @ [SourcePipeItem g' step pipe meta]\<rparr>)
              | (Some (Inr (IResolvable x s p m)), g') \<Rightarrow>
                  (Inr (Some (PipeItem x s p m)),
                   st\<lparr>sources := butlast (sources st) @ [SourcePipeItem g' step pipe meta]\<rparr>)
              | (Some (Inr (IWithMeta data m)), g') \<Rightarrow>
                  (Inr (Some (PipeItem data step pipe m)),
                   st\<lparr>sources := butlast (sources st) @ [SourcePipeItem g' step pipe meta]\<rparr>)
              | (Some (Inr x), g') \<Rightarrow>
                  (Inr (Some (PipeItem x step pipe meta)),
                   st\<lparr>sources := butlast (sources st) @ [SourcePipeItem g' step pipe meta]\<rparr>))))"
  by pat_completeness auto
termination
  by (relation "measure (\<lambda>st. length (sources st))") auto

declare get_source_item.simps [simp del]

text \<open>
  Submitting work: an awaitable goes to the event loop, a callable to the thread pool
  (both created on first use); the future is appended to \<^verbatim>\<open>_futures\<close>.
\<close>

definition new_future :: "dstate \<Rightarrow> (exn + item) option \<Rightarrow> future" where
  "new_future st r = Future (map_option (\<lambda>d. clock st + d) (latency st (submitted st))) r"

definition submit :: "dstate \<Rightarrow> pipe_item \<Rightarrow> dstate" where
  "submit st pipe_item =
     (case pi_item pipe_item of
        ICoro r \<Rightarrow>
          st\<lparr>async_pool := True, submitted := Suc (submitted st),
             futures := futures st @
               [FuturePipeItem (new_future st r) (pi_step pipe_item) (pi_pipe pipe_item) (pi_meta pipe_item)]\<rparr>
      | IThunk r \<Rightarrow>
          st\<lparr>thread_pool := True, submitted := Suc (submitted st),
             futures := futures st @
               [FuturePipeItem (new_future st (Some r)) (pi_step pipe_item) (pi_pipe pipe_item) (pi_meta pipe_item)]\<rparr>
      | x \<Rightarrow> st)"

text \<open>
  One pass through the body of \<^verbatim>\<open>while True\<close> in \<^verbatim>\<open>__next__\<close>: it ends by
  \<^verbatim>\<open>continue\<close> (with the value of \<^verbatim>\<open>pipe_item\<close> carried to the next pass), by
  \<^verbatim>\<open>return\<close> or by an exception.
\<close>

datatype loop_result =
    Continue "pipe_item option" dstate
  | Return pipe_item dstate
  | Raise exn dstate

text \<open>The part of the body below \<^verbatim>\<open>item = pipe_item.item\<close>.\<close>

definition process :: "(item \<Rightarrow> item) \<Rightarrow> dstate \<Rightarrow> pipe_item \<Rightarrow> loop_result" where
  "process cp st pipe_item =
     (let item = pi_item pipe_item; pipe = pipes st (pi_pipe pipe_item) in
      if is_Iterator item then
        Continue None
          (st\<lparr>sources := sources st @
              [SourcePipeItem item (pi_step pipe_item) (pi_pipe pipe_item) (pi_meta pipe_item)]\<rparr>)
      else if is_Awaitable item \<or> item_callable item then
        (if int (length (futures st)) < max_parallel_items st \<or> next_future st \<ge> 0
         then Continue None (submit st pipe_item)
         else Continue (Some pipe_item) (sleep st))
      else if pi_step pipe_item = int (length (steps pipe)) - 1 then
        (if is_Iterator item \<or> is_Awaitable item \<or> item_callable item
         then Raise (PipeItemProcessingError (name pipe)) st
         else Return pipe_item st)
      else
        (case py_index (steps pipe) (pi_step pipe_item + 1) of
           None \<Rightarrow> Raise IndexError st
         | Some k \<Rightarrow>
             if \<not> step_callable (steps pipe ! k) then Raise AssertionError st
             else
               (case step_call cp (steps pipe ! k) (Args [item] (Some (pi_meta pipe_item))) of
                  Inl e \<Rightarrow>
                    (case e of
                       TypeError msg \<Rightarrow> Raise (InvalidStepFunctionArguments (name pipe) msg) st
                     | e' \<Rightarrow> Raise e st)
                | Inr (IWithMeta data m) \<Rightarrow>
                    if data \<noteq> INone
                    then Continue (Some (PipeItem data (pi_step pipe_item + 1) (pi_pipe pipe_item) m)) st
                    else Continue None st
                | Inr next_item \<Rightarrow>
                    if next_item \<noteq> INone
                    then Continue (Some (PipeItem next_item (pi_step pipe_item + 1) (pi_pipe pipe_item)
                                          (pi_meta pipe_item))) st
                    else Continue None st)))"

text \<open>
  The block under \<^verbatim>\<open>if pipe_item is None\<close> up to the item it finds: first the
  futures, then the newest source.
\<close>

definition fetch :: "dstate \<Rightarrow> (exn + pipe_item option) \<times> dstate" where
  "fetch st =
     (case (if length (futures st) > 0 then resolve_futures st else (Inr None, st)) of
        (Inl e, st1) \<Rightarrow> (Inl e, st1)
      | (Inr (Some pi), st1) \<Rightarrow> (Inr (Some pi), st1)
      | (Inr None, st1) \<Rightarrow> get_source_item st1)"

definition loop_body :: "(item \<Rightarrow> item) \<Rightarrow> dstate \<Rightarrow> pipe_item option \<Rightarrow> loop_result" where
  "loop_body cp st pipe_item =
     (case pipe_item of
        Some pi \<Rightarrow> process cp st pi
      | None \<Rightarrow>
          (case fetch st of
             (Inl e, st1) \<Rightarrow> Raise e st1
           | (Inr (Some pi), st1) \<Rightarrow> process cp st1 pi
           | (Inr None, st1) \<Rightarrow>
               if length (futures st1) = 0 \<and> length (sources st1) = 0
               then Raise StopIteration st1
               else Continue None (sleep st1)))"

text \<open>
  \<^verbatim>\<open>__next__\<close>: the loop, started with \<^verbatim>\<open>pipe_item = None\<close>. The loop may poll for
  ever, so it runs on fuel: \<open>None\<close> when the passes allowed did not reach a
  \<^verbatim>\<open>return\<close> or an exception.
\<close>

fun next_loop ::
  "(item \<Rightarrow> item) \<Rightarrow> nat \<Rightarrow> dstate \<Rightarrow> pipe_item option \<Rightarrow> ((exn + pipe_item) \<times> dstate) option" where
  "next_loop cp 0 st pipe_item = None"
| "next_loop cp (Suc n) st pipe_item =
     (case loop_body cp st pipe_item of
        Continue pipe_item' st' \<Rightarrow> next_loop cp n st' pipe_item'
      | Return pi st' \<Rightarrow> Some (Inr pi, st')
      | Raise e st' \<Rightarrow> Some (Inl e, st'))"

definition pipe_next :: "(item \<Rightarrow> item) \<Rightarrow> nat \<Rightarrow> dstate \<Rightarrow> ((exn + pipe_item) \<times> dstate) option" where
  "pipe_next cp n st = next_loop cp n st None"

text \<open>
  \<^verbatim>\<open>close\<close>: the futures that are not done are cancelled and the list cleared; then the
  generators among the sources are closed in the order of the list, the sources cleared
  and the pools stopped. \<^verbatim>\<open>gen.close()\<close> runs the generator's own code and can raise:
  then \<^verbatim>\<open>close\<close> ends there, with the futures cleared and the sources and the pools
  left as they were.
\<close>

fun close_generators :: "(item \<Rightarrow> exn option) \<Rightarrow> source_item list \<Rightarrow> exn option" where
  "close_generators gc [] = None"
| "close_generators gc (SourcePipeItem g step pipe meta # ss) =
     (case gc g of Some e \<Rightarrow> Some e | None \<Rightarrow> close_generators gc ss)"

definition close :: "dstate \<Rightarrow> (exn + unit) \<times> dstate" where
  "close st =
     (let st1 = st\<lparr>futures := []\<rparr> in
      case close_generators (gen_close st1) (sources st1) of
        Some e \<Rightarrow> (Inl e, st1)
      | None \<Rightarrow> (Inr (), st1\<lparr>sources := [], async_pool := False, thread_pool := False\<rparr>))"

subsection \<open>ManagedPipeIterator\<close>

text \<open>
  What \<^verbatim>\<open>__exit__\<close> is called with: \<^verbatim>\<open>(None, None, None)\<close> or
  \<^verbatim>\<open>(type(ex), ex, None)\<close>. A context manager is an object with a truth value
  (\<open>cm_truthy\<close>: what \<^verbatim>\<open>bool(ctx)\<close> gives, false for one whose \<^verbatim>\<open>__bool__\<close> or
  \<^verbatim>\<open>__len__\<close> says so), with what \<^verbatim>\<open>__enter__\<close> does (\<open>cm_enter\<close>: return, or raise) and
  with what \<^verbatim>\<open>__exit__\<close> does with its arguments (\<open>cm_exit\<close>: return, or raise).
  \<open>exit_calls\<close> records the calls of \<^verbatim>\<open>__exit__\<close> made; \<^verbatim>\<open>_context_manager\<close> is \<open>None\<close>
  until one is set.
\<close>

datatype exc_info = NoFailure | Failure exn

datatype ctx_manager =
  ContextManager (cm_truthy: bool) (cm_enter: "exn option") (cm_exit: "exc_info \<Rightarrow> exn option")

record managed =
  disp :: dstate
  context_manager :: "ctx_manager option"
  exit_calls :: "exc_info list"

definition set_context_manager :: "managed \<Rightarrow> ctx_manager \<Rightarrow> (exn + unit) \<times> managed" where
  "set_context_manager m ctx =
     (case cm_enter ctx of
        Some e \<Rightarrow> (Inl e, m)
      | None \<Rightarrow> (Inr (), m\<lparr>context_manager := Some ctx\<rparr>))"

text \<open>
  The block under \<^verbatim>\<open>if self._context_manager:\<close>, a test of the truth value of the
  attribute: \<^verbatim>\<open>None\<close> is false, and so is a manager that is set and falsy.
\<close>

definition release :: "managed \<Rightarrow> exn \<Rightarrow> (exn + unit) \<times> managed" where
  "release m ex =
     (case context_manager m of
        None \<Rightarrow> (Inr (), m)
      | Some ctx \<Rightarrow>
          if \<not> cm_truthy ctx then (Inr (), m)
          else
            (let info = (if ex = StopIteration then NoFailure else Failure ex) in
             (case cm_exit ctx info of
                Some e \<Rightarrow> (Inl e, m\<lparr>exit_calls := exit_calls m @ [info]\<rparr>)
              | None \<Rightarrow> (Inr (), m\<lparr>exit_calls := exit_calls m @ [info]\<rparr>))))"

text \<open>
  \<^verbatim>\<open>ManagedPipeIterator.__next__\<close>. \<^verbatim>\<open>except Exception\<close> lets a \<^verbatim>\<open>BaseException\<close> that
  is no \<^verbatim>\<open>Exception\<close> pass. In the handler an exception raised by \<^verbatim>\<open>__exit__\<close> or by
  \<^verbatim>\<open>self.close()\<close> leaves the handler in place of the one caught; the bare \<^verbatim>\<open>raise\<close> is
  reached when both returned.
\<close>

definition managed_next ::
  "(item \<Rightarrow> item) \<Rightarrow> nat \<Rightarrow> managed \<Rightarrow> ((exn + pipe_item) \<times> managed) option" where
  "managed_next cp n m =
     (case pipe_next cp n (disp m) of
        None \<Rightarrow> None
      | Some (Inr pi, st) \<Rightarrow> Some (Inr pi, m\<lparr>disp := st\<rparr>)
      | Some (Inl ex, st) \<Rightarrow> Some
         (if \<not> is_Exception ex then (Inl ex, m\<lparr>disp := st\<rparr>)
          else
            (case release m ex of
               (Inl e2, m1) \<Rightarrow> (Inl e2, m1\<lparr>disp := st\<rparr>)
             | (Inr u, m1) \<Rightarrow>
                 (case close st of
                    (Inl e3, st') \<Rightarrow> (Inl e3, m1\<lparr>disp := st'\<rparr>)
                  | (Inr v, st') \<Rightarrow> (Inl ex, m1\<lparr>disp := st'\<rparr>)))))"

section \<open>Sequences of calls and example objects\<close>

text \<open>
  A sequence of \<^verbatim>\<open>append_step\<close>, \<^verbatim>\<open>insert_step\<close> and \<^verbatim>\<open>remove_step\<close> calls on one
  pipe; a call that raises leaves the pipe as it was and the caller goes on.
\<close>

datatype pipe_op = Append step | Insert step int | Remove int

fun apply_op :: "pipe \<Rightarrow> pipe_op \<Rightarrow> pipe" where
  "apply_op p (Append s) = snd (append_step p s)"
| "apply_op p (Insert s i) = snd (insert_step p s i)"
| "apply_op p (Remove i) = snd (remove_step p i)"

fun op_index_ok :: "pipe_op \<Rightarrow> bool" where
  "op_index_ok (Append s) = True"
| "op_index_ok (Insert s i) = (0 \<le> i)"
| "op_index_ok (Remove i) = (0 \<le> i)"

definition gen_ok :: "pipe \<Rightarrow> bool" where
  "gen_ok p = (0 \<le> gen_idx p \<and> gen_idx p < int (length (steps p)))"

text \<open>Transform steps \<^verbatim>\<open>lambda item, meta=None: ...\<close> and pipes built from them.\<close>

definition double_step :: step where
  "double_step =
     Fun [Param ''item'' POSITIONAL_OR_KEYWORD False, Param ''meta'' POSITIONAL_OR_KEYWORD True]
         (\<lambda>a. case a of Args [IInt n] m \<Rightarrow> Inr (IInt (2 * n)) | _ \<Rightarrow> Inr INone)"

definition drop_step :: step where
  "drop_step =
     Fun [Param ''item'' POSITIONAL_OR_KEYWORD False, Param ''meta'' POSITIONAL_OR_KEYWORD True]
         (\<lambda>a. Inr INone)"

definition tag_step :: step where
  "tag_step =
     Fun [Param ''item'' POSITIONAL_OR_KEYWORD False, Param ''meta'' POSITIONAL_OR_KEYWORD True]
         (\<lambda>a. case a of Args [x] m \<Rightarrow> Inr (IWithMeta x (IStr ''tag'')) | _ \<Rightarrow> Inr INone)"

definition numbers_pipe :: pipe where
  "numbers_pipe = \<lparr>name = ''numbers'', gen_idx = 0,
                   steps = [Obj (IList [IInt 1, IInt 2]), double_step, drop_step],
                   pipe_id = (''numbers'', 0), parent = None\<rparr>"

definition keyed_pipe :: pipe where
  "keyed_pipe = \<lparr>name = ''keyed'', gen_idx = 1, steps = [drop_step, double_step, drop_step],
                 pipe_id = (''keyed'', 1), parent = Some 0\<rparr>"

definition list_pipe :: pipe where
  "list_pipe = \<lparr>name = ''list'', gen_idx = 0, steps = [Obj (IList [IInt 1, IInt 2]), double_step],
                pipe_id = (''list'', 3), parent = None\<rparr>"


section \<open>Runs of the dispatcher\<close>

text \<open>
  The futures in flight: the entries of \<^verbatim>\<open>_futures\<close> whose future is not done at the
  current clock value.
\<close>

definition in_flight :: "dstate \<Rightarrow> nat" where
  "in_flight st = length (filter (\<lambda>f. \<not> item_done (clock st) f) (futures st))"

fun result_state :: "loop_result \<Rightarrow> dstate" where
  "result_state (Continue c st) = st"
| "result_state (Return pi st) = st"
| "result_state (Raise e st) = st"

fun result_carry :: "loop_result \<Rightarrow> pipe_item option" where
  "result_carry (Continue c st) = c"
| "result_carry (Return pi st) = None"
| "result_carry (Raise e st) = None"

text \<open>
  The moments of a dispatcher's life, each with the value \<^verbatim>\<open>pipe_item\<close> holds there
  (\<open>None\<close> between two calls of \<^verbatim>\<open>__next__\<close> and at the top of a pass that has to fetch
  an item). It is created with no future. When \<^verbatim>\<open>pipe_item\<close> is \<^verbatim>\<open>None\<close> the loop
  fetches: it finds an item, or raises (an exception of a future or of a source, or
  \<^verbatim>\<open>StopIteration\<close>), or finds nothing and sleeps. When \<^verbatim>\<open>pipe_item\<close> holds an item the
  loop processes it, which ends by \<^verbatim>\<open>continue\<close>, \<^verbatim>\<open>return\<close> or an exception. \<^verbatim>\<open>close\<close>
  is called between two calls of \<^verbatim>\<open>__next__\<close>, and returns or raises. Time passes, and
  futures get done, at any of these moments.
\<close>

inductive reachable :: "(item \<Rightarrow> item) \<Rightarrow> dstate \<Rightarrow> pipe_item option \<Rightarrow> bool" for cp where
  created: "futures st = [] \<Longrightarrow> reachable cp st None"
| fetched: "reachable cp st None \<Longrightarrow> fetch st = (Inr (Some pi), st') \<Longrightarrow> reachable cp st' (Some pi)"
| fetch_raised: "reachable cp st None \<Longrightarrow> fetch st = (Inl e, st') \<Longrightarrow> reachable cp st' None"
| fetched_nothing: "reachable cp st None \<Longrightarrow> fetch st = (Inr None, st') \<Longrightarrow> reachable cp st' None"
| processed: "reachable cp st (Some pi) \<Longrightarrow>
     reachable cp (result_state (process cp st pi)) (result_carry (process cp st pi))"
| closed: "reachable cp st None \<Longrightarrow> reachable cp (snd (close st)) None"
| time_passes: "reachable cp st c \<Longrightarrow> reachable cp (st\<lparr>clock := clock st + d\<rparr>) c"

text \<open>
  The dispatcher and \<^verbatim>\<open>pipe_item\<close> after \<open>k\<close> passes of the loop that all ended by
  \<^verbatim>\<open>continue\<close>.
\<close>

fun passes ::
  "(item \<Rightarrow> item) \<Rightarrow> nat \<Rightarrow> dstate \<Rightarrow> pipe_item option \<Rightarrow> (dstate \<times> pipe_item option) option" where
  "passes cp 0 st c = Some (st, c)"
| "passes cp (Suc k) st c =
     (case loop_body cp st c of
        Continue c' st' \<Rightarrow> passes cp k st' c'
      | Return pi st' \<Rightarrow> None
      | Raise e st' \<Rightarrow> None)"

text \<open>
  The invariant of the futures list: it holds at most \<^verbatim>\<open>max_parallel_items\<close> entries
  (none when the setting is negative), or one more right after a submission that took
  the place of an entry already done.
\<close>

definition slots :: "dstate \<Rightarrow> int" where
  "slots st = max 0 (max_parallel_items st)"

definition slots_ok :: "dstate \<Rightarrow> pipe_item option \<Rightarrow> bool" where
  "slots_ok st c =
     (int (length (futures st)) \<le> slots st
      \<or> (int (length (futures st)) = slots st + 1 \<and> c = None
          \<and> list_ex (item_done (clock st)) (futures st)))"

subsection \<open>Example dispatchers\<close>

definition idle_state :: dstate where
  "idle_state = \<lparr>max_parallel_items = 20, workers = 5, sources = [], futures = [],
                  async_pool = False, thread_pool = False, clock = 0, submitted = 0,
                  latency = (\<lambda>n. Some 0), pipes = (\<lambda>r. numbers_pipe),
                  gen_close = (\<lambda>g. None)\<rparr>"

definition boom_iter :: item where
  "boom_iter = IIter (\<lambda>k. Some (Inl (OtherException ''boom''))) 0"

definition boom_state :: dstate where
  "boom_state = idle_state\<lparr>sources := [SourcePipeItem boom_iter 0 0 INone]\<rparr>"




definition typeerr_step :: step where
  "typeerr_step =
     Fun [Param ''item'' POSITIONAL_OR_KEYWORD False, Param ''meta'' POSITIONAL_OR_KEYWORD True]
         (\<lambda>a. Inl (TypeError ''unsupported operand''))"

definition failing_step :: step where
  "failing_step =
     Fun [Param ''item'' POSITIONAL_OR_KEYWORD False, Param ''meta'' POSITIONAL_OR_KEYWORD True]
         (\<lambda>a. Inl (OtherException ''bad value''))"

definition broken_pipe :: pipe where
  "broken_pipe = \<lparr>name = ''broken'', gen_idx = 0,
                  steps = [Obj (iter_of_list [IInt 1]), typeerr_step, failing_step],
                  pipe_id = (''broken'', 4), parent = None\<rparr>"

definition broken_state :: dstate where
  "broken_state = idle_state\<lparr>sources := [SourcePipeItem (iter_of_list [IInt 1]) 0 0 INone],
                             pipes := (\<lambda>r. broken_pipe)\<rparr>"

definition nones_pipe :: pipe where
  "nones_pipe = \<lparr>name = ''nones'', gen_idx = 0, steps = [Obj (iter_of_list [INone])],
                 pipe_id = (''nones'', 5), parent = None\<rparr>"

definition nones_state :: dstate where
  "nones_state = idle_state\<lparr>sources := [SourcePipeItem (iter_of_list [INone]) 0 0 INone],
                            pipes := (\<lambda>r. nones_pipe)\<rparr>"

definition none_future_state :: dstate where
  "none_future_state =
     idle_state\<lparr>futures := [FuturePipeItem (Future (Some 0) (Some (Inr INone))) 0 0 INone],
                thread_pool := True, submitted := 1, pipes := (\<lambda>r. nones_pipe)\<rparr>"

definition thunk_state :: dstate where
  "thunk_state = idle_state\<lparr>max_parallel_items := 1,
       sources := [SourcePipeItem (iter_of_list [IThunk (Inr (IInt 4))]) 0 0 INone],
       latency := (\<lambda>n. Some 2)\<rparr>"

definition empty_pipe :: pipe where
  "empty_pipe = \<lparr>name = ''unbound'', gen_idx = 0, steps = [], pipe_id = (''unbound'', 0),
                 parent = None\<rparr>"

definition child_pipe :: pipe where
  "child_pipe = \<lparr>name = ''child'', gen_idx = 0, steps = [double_step], pipe_id = (''child'', 1),
                 parent = Some 0\<rparr>"

definition unbound_heap :: heap where
  "unbound_heap = \<lparr>objs = (\<lambda>r. if r = 0 then empty_pipe else child_pipe), next_id = 2\<rparr>"

definition bound_heap :: heap where
  "bound_heap = \<lparr>objs = (\<lambda>r. if r = 0 then numbers_pipe else child_pipe), next_id = 3\<rparr>"

section \<open>Pipe: the generator index\<close>

lemma py_index_last: "xs \<noteq> [] \<Longrightarrow> py_index xs (- 1) = Some (length xs - 1)"
  by (cases xs) (auto simp: py_index_def Let_def)

lemma tail_last: "steps p \<noteq> [] \<Longrightarrow> tail p = Inr (last (steps p))"
  by (simp add: tail_def py_index_last last_conv_nth)

lemma fork_sig_bind: "sig_bind (signature (Fork es cof)) 1 [''meta'']"
  by (simp add: sig_bind_def positional_def by_keyword_def)

lemma append_fork: "steps p \<noteq> [] \<Longrightarrow> append_step p (Fork es cof) = (Inr (), p\<lparr>steps := steps p @ [Fork es cof]\<rparr>)"
  by (simp add: append_step_def wrap_transform_step_meta_def ensure_transform_step_def is_empty_def by_keyword_def sig_bind_def positional_def)

lemma gen_ok_gen: "gen_ok p \<Longrightarrow> gen p = Inr (steps p ! nat (gen_idx p))"
  by (simp add: gen_ok_def gen_def py_index_def)

lemma append_step_gen: "gen_ok p \<Longrightarrow> gen_ok (snd (append_step p s)) \<and> gen (snd (append_step p s)) = gen p"
  by (auto simp: append_step_def gen_ok_gen gen_ok_def nth_append split: sum.splits)

lemma py_insert_nonneg: "0 \<le> i \<Longrightarrow> py_insert xs i x = take (nat i) xs @ x # drop (nat i) xs"
  by (auto simp: py_insert_def Let_def min_def)

lemma nth_insert_before: "i \<le> g \<Longrightarrow> g < length xs \<Longrightarrow> (take i xs @ x # drop i xs) ! Suc g = xs ! g"
  by (simp add: nth_append min_def Suc_diff_le)

lemma nth_insert_after: "g < i \<Longrightarrow> g < length xs \<Longrightarrow> (take i xs @ x # drop i xs) ! g = xs ! g"
  by (simp add: nth_append min_def)

lemma nth_remove_before: "i < g \<Longrightarrow> g < length xs \<Longrightarrow> (take i xs @ drop (Suc i) xs) ! (g - 1) = xs ! g"
  by (auto simp: nth_append min_def)

lemma nth_remove_after: "g < i \<Longrightarrow> i < length xs \<Longrightarrow> (take i xs @ drop (Suc i) xs) ! g = xs ! g"
  by (simp add: nth_append min_def)

lemma insert_step_gen:
  assumes "gen_ok p" "0 \<le> i"
  shows "gen_ok (snd (insert_step p s i)) \<and> gen (snd (insert_step p s i)) = gen p"
proof -
  have ne: "steps p \<noteq> []" using assms(1) by (auto simp: gen_ok_def)
  show ?thesis
  proof (cases "wrap_transform_step_meta p i s")
    case (Inl e)
    then show ?thesis using assms ne by (simp add: insert_step_def)
  next
    case (Inr s')
    let ?q = "p\<lparr>steps := py_insert (steps p) i s',
                gen_idx := (if i \<le> gen_idx p then gen_idx p + 1 else gen_idx p)\<rparr>"
    have q: "snd (insert_step p s i) = ?q \<or> snd (insert_step p s i) = p"
      using Inr ne by (simp add: insert_step_def)
    have ok: "gen_ok ?q" using assms by (auto simp: gen_ok_def py_insert_nonneg)
    have "steps ?q ! nat (gen_idx ?q) = steps p ! nat (gen_idx p)"
    proof (cases "i \<le> gen_idx p")
      case True
      then have "nat (gen_idx p + 1) = Suc (nat (gen_idx p))" "nat i \<le> nat (gen_idx p)"
        "nat (gen_idx p) < length (steps p)"
        using assms by (auto simp: gen_ok_def)
      then show ?thesis using True assms(2) nth_insert_before[of "nat i" "nat (gen_idx p)" "steps p" s']
        by (simp add: py_insert_nonneg)
    next
      case False
      then have "nat (gen_idx p) < nat i" "nat (gen_idx p) < length (steps p)"
        using assms by (auto simp: gen_ok_def)
      then show ?thesis using False assms(2) nth_insert_after[of "nat (gen_idx p)" "nat i" "steps p" s']
        by (simp add: py_insert_nonneg)
    qed
    then have "gen ?q = gen p" using ok assms(1) by (simp add: gen_ok_gen)
    with ok q assms(1) show ?thesis by auto
  qed
qed

lemma remove_step_gen:
  assumes "gen_ok p" "0 \<le> i"
  shows "gen_ok (snd (remove_step p i)) \<and> gen (snd (remove_step p i)) = gen p"
proof (cases "i = gen_idx p \<or> py_index (steps p) i = None")
  case True
  then show ?thesis using assms by (auto simp: remove_step_def py_pop_def)
next
  case False
  then have k: "py_index (steps p) i = Some (nat i)" "nat i < length (steps p)" "i \<noteq> gen_idx p"
    using assms by (auto simp: py_index_def Let_def split: if_splits)
  let ?q = "p\<lparr>steps := take (nat i) (steps p) @ drop (Suc (nat i)) (steps p),
              gen_idx := (if i < gen_idx p then gen_idx p - 1 else gen_idx p)\<rparr>"
  have q: "snd (remove_step p i) = ?q" using k by (simp add: remove_step_def py_pop_def)
  have ok: "gen_ok ?q" using assms k by (auto simp: gen_ok_def)
  have "steps ?q ! nat (gen_idx ?q) = steps p ! nat (gen_idx p)"
  proof (cases "i < gen_idx p")
    case True
    then have "nat (gen_idx p - 1) = nat (gen_idx p) - 1" "nat i < nat (gen_idx p)"
      "nat (gen_idx p) < length (steps p)"
      using assms by (auto simp: gen_ok_def)
    then show ?thesis using True nth_remove_before[of "nat i" "nat (gen_idx p)" "steps p"]
      by simp
  next
    case False
    then have "nat (gen_idx p) < nat i" using assms k by (auto simp: gen_ok_def)
    then show ?thesis using False k(2) nth_remove_after[of "nat (gen_idx p)" "nat i" "steps p"]
      by simp
  qed
  then have "gen ?q = gen p" using ok assms(1) by (simp add: gen_ok_gen)
  with ok q show ?thesis by simp
qed

lemma run_ops_gen:
  "gen_ok p \<Longrightarrow> list_all op_index_ok ops \<Longrightarrow>
     gen_ok (foldl apply_op p ops) \<and> gen (foldl apply_op p ops) = gen p"
proof (induction ops arbitrary: p)
  case Nil then show ?case by simp
next
  case (Cons a ops)
  have "gen_ok (apply_op p a) \<and> gen (apply_op p a) = gen p"
    using Cons.prems by (cases a) (auto simp: append_step_gen insert_step_gen remove_step_gen)
  with Cons show ?case by simp
qed

lemma tag_step_ok: "wrap_transform_step_meta numbers_pipe i tag_step = Inr tag_step"
  by (simp add: wrap_transform_step_meta_def tag_step_def numbers_pipe_def is_empty_def
      ensure_transform_step_def sig_bind_def positional_def by_keyword_def)

text \<open>
  C5. The claim: after any sequence of \<^verbatim>\<open>append_step\<close>, \<^verbatim>\<open>insert_step\<close> and
  \<^verbatim>\<open>remove_step\<close> calls that never removes the step at \<^verbatim>\<open>_gen_idx\<close>, \<^verbatim>\<open>gen\<close> is the
  step it was. With indices that are not negative this holds (\<open>run_ops_gen\<close> above).
  \<^verbatim>\<open>insert_step\<close> compares the index it is given with \<^verbatim>\<open>_gen_idx\<close>, while
  \<^verbatim>\<open>list.insert\<close> counts a negative index from the end: on the three-step pipe
  \<open>numbers_pipe\<close>, \<^verbatim>\<open>insert_step(tag_step, -1)\<close> puts the step before the last one,
  behind the generator, and still moves \<^verbatim>\<open>_gen_idx\<close> to 1, so \<^verbatim>\<open>gen\<close> becomes the
  transform that followed the generator. \<^verbatim>\<open>remove_step(-1)\<close> pops the last step and
  moves \<^verbatim>\<open>_gen_idx\<close> to -1, with the same effect on \<^verbatim>\<open>gen\<close>.
\<close>

theorem insert_step_negative_index_moves_gen:
  "gen numbers_pipe = Inr (Obj (IList [IInt 1, IInt 2]))
   \<and> fst (insert_step numbers_pipe tag_step (- 1)) = Inr ()
   \<and> steps (snd (insert_step numbers_pipe tag_step (- 1)))
       = [Obj (IList [IInt 1, IInt 2]), double_step, tag_step, drop_step]
   \<and> gen_idx (snd (insert_step numbers_pipe tag_step (- 1))) = 1
   \<and> gen (snd (insert_step numbers_pipe tag_step (- 1))) = Inr double_step
   \<and> fst (remove_step numbers_pipe (- 1)) = Inr ()
   \<and> steps (snd (remove_step numbers_pipe (- 1))) = [Obj (IList [IInt 1, IInt 2]), double_step]
   \<and> gen_idx (snd (remove_step numbers_pipe (- 1))) = - 1
   \<and> gen (snd (remove_step numbers_pipe (- 1))) = Inr double_step
   \<and> double_step \<noteq> Obj (IList [IInt 1, IInt 2])"
proof -
  have s: "insert_step numbers_pipe tag_step (- 1)
        = (Inr (), numbers_pipe\<lparr>steps := [Obj (IList [IInt 1, IInt 2]), double_step, tag_step, drop_step],
                                 gen_idx := 1\<rparr>)"
    by (simp add: insert_step_def tag_step_ok) (simp add: numbers_pipe_def py_insert_def)
  have r: "remove_step numbers_pipe (- 1)
        = (Inr (), numbers_pipe\<lparr>steps := [Obj (IList [IInt 1, IInt 2]), double_step],
                                 gen_idx := - 1\<rparr>)"
    by (simp add: remove_step_def py_pop_def py_index_def numbers_pipe_def)
  have g: "gen numbers_pipe = Inr (Obj (IList [IInt 1, IInt 2]))"
    by (simp add: gen_def numbers_pipe_def py_index_def)
  have d: "double_step \<noteq> Obj (IList [IInt 1, IInt 2])" by (simp add: double_step_def)
  show ?thesis unfolding s r using g d by (simp add: gen_def py_index_def)
qed

text \<open>
  C9. \<^verbatim>\<open>remove_step(index)\<close> with \<open>index = _gen_idx\<close> raises \<^verbatim>\<open>CreatePipeException\<close> and
  leaves the pipe as it was; with \<open>index < _gen_idx\<close> designating the step at position
  \<open>k\<close> of the list, that step and no other is removed and \<^verbatim>\<open>_gen_idx\<close> goes down by one.
\<close>

theorem remove_step_at_or_before_gen:
  "(index = gen_idx p \<longrightarrow>
      (\<exists>m. remove_step p index = (Inl (CreatePipeException (name p) m), p)))
   \<and> (index < gen_idx p \<and> py_index (steps p) index = Some k \<longrightarrow>
        (\<exists>p'. remove_step p index = (Inr (), p')
           \<and> gen_idx p' = gen_idx p - 1
           \<and> steps p' = take k (steps p) @ drop (Suc k) (steps p)
           \<and> length (steps p') = length (steps p) - 1
           \<and> (\<forall>i<k. steps p' ! i = steps p ! i)
           \<and> (\<forall>i. k \<le> i \<and> i < length (steps p') \<longrightarrow> steps p' ! i = steps p ! Suc i)
           \<and> name p' = name p \<and> parent p' = parent p \<and> pipe_id p' = pipe_id p))"
proof (intro conjI impI)
  assume "index = gen_idx p"
  then show "\<exists>m. remove_step p index = (Inl (CreatePipeException (name p) m), p)"
    by (simp add: remove_step_def)
next
  assume a: "index < gen_idx p \<and> py_index (steps p) index = Some k"
  then have k: "k < length (steps p)"
    by (auto simp: py_index_def Let_def split: if_splits)
  define p' where "p' = p\<lparr>steps := take k (steps p) @ drop (Suc k) (steps p),
                          gen_idx := gen_idx p - 1\<rparr>"
  have r: "remove_step p index = (Inr (), p')"
    using a by (simp add: remove_step_def py_pop_def p'_def)
  have l: "length (steps p') = length (steps p) - 1"
    using k by (simp add: p'_def)
  have before: "\<forall>i<k. steps p' ! i = steps p ! i"
    using k by (simp add: p'_def nth_append)
  have after: "\<forall>i. k \<le> i \<and> i < length (steps p') \<longrightarrow> steps p' ! i = steps p ! Suc i"
    using k by (auto simp: p'_def nth_append min_def)
  show "\<exists>p'. remove_step p index = (Inr (), p')
           \<and> gen_idx p' = gen_idx p - 1
           \<and> steps p' = take k (steps p) @ drop (Suc k) (steps p)
           \<and> length (steps p') = length (steps p) - 1
           \<and> (\<forall>i<k. steps p' ! i = steps p ! i)
           \<and> (\<forall>i. k \<le> i \<and> i < length (steps p') \<longrightarrow> steps p' ! i = steps p ! Suc i)
           \<and> name p' = name p \<and> parent p' = parent p \<and> pipe_id p' = pipe_id p"
    using r l before after by (intro exI[of _ p']) (simp add: p'_def)
qed

theorem remove_step_at_or_before_gen_witness:
  "(\<exists>m. remove_step keyed_pipe 1 = (Inl (CreatePipeException ''keyed'' m), keyed_pipe))
   \<and> remove_step keyed_pipe 0 = (Inr (), keyed_pipe\<lparr>steps := [double_step, drop_step], gen_idx := 0\<rparr>)"
proof -
  have i: "py_index (steps keyed_pipe) 0 = Some 0" by (simp add: py_index_def keyed_pipe_def)
  have a: "\<exists>m. remove_step keyed_pipe 1 = (Inl (CreatePipeException (name keyed_pipe) m), keyed_pipe)"
    using remove_step_at_or_before_gen[of 1 keyed_pipe 0] by (simp add: keyed_pipe_def)
  obtain p' where b: "remove_step keyed_pipe 0 = (Inr (), p')"
    and g: "gen_idx p' = gen_idx keyed_pipe - 1"
    and t: "steps p' = take 0 (steps keyed_pipe) @ drop (Suc 0) (steps keyed_pipe)"
    and n: "name p' = name keyed_pipe" "parent p' = parent keyed_pipe"
           "pipe_id p' = pipe_id keyed_pipe"
    using remove_step_at_or_before_gen[of 0 keyed_pipe 0] i
    by (auto simp: keyed_pipe_def)
  have "p' = keyed_pipe\<lparr>steps := [double_step, drop_step], gen_idx := 0\<rparr>"
    using g t n by (cases p') (simp add: keyed_pipe_def)
  then show ?thesis using a b by (simp add: keyed_pipe_def)
qed

section \<open>Fork\<close>

lemma fork_items_length: "length (fork_items cp cof it meta i es) = length es"
  by (induction es arbitrary: i) auto

lemma fork_items_nth: "k < length es \<Longrightarrow> fork_items cp cof it meta i es ! k =
   IResolvable (if i + k = 0 \<or> \<not> cof then it else cp it) (snd (es ! k)) (fst (es ! k)) meta"
proof (induction es arbitrary: i k)
  case Nil then show ?case by simp
next
  case (Cons e es)
  obtain a b where e: "e = (a, b)" by (cases e)
  show ?case
  proof (cases k)
    case 0 then show ?thesis by (simp add: e)
  next
    case (Suc j)
    with Cons.prems have "j < length es" by simp
    from Cons.IH[OF this, of "Suc i"] show ?thesis by (simp add: e Suc)
  qed
qed

text \<open>
  C7. Calling a \<^verbatim>\<open>ForkPipe\<close> with \<open>(it, meta)\<close> gives a generator that yields one
  \<^verbatim>\<open>ResolvablePipeItem\<close> per edge, in the order of the edges, and then stops: edge 0
  carries \<open>it\<close> itself, a later edge carries \<open>cp it\<close> when \<^verbatim>\<open>copy_on_fork\<close> is set and
  \<open>it\<close> itself otherwise; each targets the step and the pipe of its edge, with \<open>meta\<close>.
\<close>

theorem fork_call_one_item_per_edge:
  "\<exists>f. step_call cp (Fork es cof) (Args [it] (Some meta)) = Inr (IIter f 0)
       \<and> (\<forall>i. f i = (if i < length es
                      then Some (Inr (IResolvable (if i = 0 \<or> \<not> cof then it else cp it)
                                                  (snd (es ! i)) (fst (es ! i)) meta))
                      else None))"
proof -
  let ?ys = "fork_call cp es cof it meta"
  have call: "step_call cp (Fork es cof) (Args [it] (Some meta)) = Inr (iter_of_list ?ys)"
    by simp
  have len: "length ?ys = length es"
    by (simp add: fork_call_def fork_items_length)
  have nth: "?ys ! i = IResolvable (if i = 0 \<or> \<not> cof then it else cp it)
                                   (snd (es ! i)) (fst (es ! i)) meta" if "i < length es" for i
    using fork_items_nth[OF that, of cp cof it meta 0] by (simp add: fork_call_def)
  show ?thesis
    unfolding call iter_of_list_def using len nth by auto
qed

theorem fork_call_one_item_per_edge_witness:
  "\<exists>f. step_call (\<lambda>x. IList [x]) (Fork [(1, - 1), (2, 0), (3, - 1)] True) (Args [IInt 7] (Some INone)) = Inr (IIter f 0)
       \<and> f 0 = Some (Inr (IResolvable (IInt 7) (- 1) 1 INone))
       \<and> f 1 = Some (Inr (IResolvable (IList [IInt 7]) 0 2 INone))
       \<and> f 2 = Some (Inr (IResolvable (IList [IInt 7]) (- 1) 3 INone))
       \<and> f 3 = None"
proof -
  obtain f where f: "step_call (\<lambda>x. IList [x]) (Fork [(1, - 1), (2, 0), (3, - 1)] True) (Args [IInt 7] (Some INone)) = Inr (IIter f 0)"
    and a: "\<And>i. f i = (if i < length [(1::nat, - 1::int), (2, 0), (3, - 1)]
                      then Some (Inr (IResolvable (if i = 0 \<or> \<not> True then IInt 7 else IList [IInt 7])
                                                  (snd ([(1::nat, - 1::int), (2, 0), (3, - 1)] ! i)) (fst ([(1::nat, - 1::int), (2, 0), (3, - 1)] ! i)) INone))
                      else None)"
    using fork_call_one_item_per_edge[of "\<lambda>x. IList [x]" "[(1, - 1), (2, 0), (3, - 1)]" True "IInt 7" INone]
    by blast
  have "f 0 = Some (Inr (IResolvable (IInt 7) (- 1) 1 INone))" by (simp add: a)
  moreover have "f 1 = Some (Inr (IResolvable (IList [IInt 7]) 0 2 INone))" by (simp add: a)
  moreover have "f 2 = Some (Inr (IResolvable (IList [IInt 7]) (- 1) 3 INone))" by (simp add: a)
  moreover have "f 3 = None" by (simp add: a)
  ultimately show ?thesis using f by blast
qed

lemma fork_not_fork_tail:
  assumes "steps p \<noteq> []" "\<forall>es f. last (steps p) \<noteq> Fork es f"
  shows "fork p c st cof = (Inr (), p\<lparr>steps := steps p @ [Fork [(c, st)] cof]\<rparr>)"
proof -
  have "fork p c st cof = append_step p (ForkPipe c st cof)"
    using assms by (cases "last (steps p)") (auto simp: fork_def tail_last)
  then show ?thesis using assms(1)
    by (simp add: ForkPipe_def add_pipe_def append_fork)
qed

lemma fork_fork_tail:
  assumes "steps p \<noteq> []" "last (steps p) = Fork es f"
  shows "fork p c st cof =
    (Inr (), if c \<in> set (map fst es) then p
             else p\<lparr>steps := butlast (steps p) @ [Fork (es @ [(c, st)]) f]\<rparr>)"
  using assms by (simp add: fork_def tail_last has_pipe_def add_pipe_def pipe_eq_edge_def list_ex_iff)

text \<open>
  C6. On a pipe with steps, \<^verbatim>\<open>fork(child)\<close> succeeds and a second \<^verbatim>\<open>fork\<close> to the same
  child (whatever its other arguments) changes nothing; afterwards the tail is a
  \<^verbatim>\<open>ForkPipe\<close> with exactly one edge to the child (a \<^verbatim>\<open>ForkPipe\<close> found at the tail is
  taken to hold the child at most once, as every one built by \<^verbatim>\<open>fork\<close> does). When the
  tail was not a \<^verbatim>\<open>ForkPipe\<close>, one is appended with the single edge
  \<open>(child, entry_step)\<close> and the given \<^verbatim>\<open>copy_on_fork\<close>; otherwise no step is added.
\<close>

theorem fork_twice_single_edge:
  assumes "steps p \<noteq> []"
    and "\<forall>es f. tail p = Inr (Fork es f) \<longrightarrow> count_list (map fst es) c \<le> 1"
  shows "\<exists>p1 es f.
      fork p c st cof = (Inr (), p1)
    \<and> fork p1 c st' cof' = (Inr (), p1)
    \<and> tail p1 = Inr (Fork es f) \<and> count_list (map fst es) c = 1
    \<and> ((\<forall>es0 f0. tail p \<noteq> Inr (Fork es0 f0)) \<longrightarrow> steps p1 = steps p @ [Fork [(c, st)] cof])
    \<and> ((\<exists>es0 f0. tail p = Inr (Fork es0 f0)) \<longrightarrow> length (steps p1) = length (steps p))"
proof (cases "\<exists>es0 f0. last (steps p) = Fork es0 f0")
  case False
  let ?p1 = "p\<lparr>steps := steps p @ [Fork [(c, st)] cof]\<rparr>"
  have 1: "fork p c st cof = (Inr (), ?p1)"
    using fork_not_fork_tail[OF assms(1)] False by simp
  have 2: "fork ?p1 c st' cof' = (Inr (), ?p1)"
    using fork_fork_tail[of ?p1 "[(c, st)]" cof c st' cof'] by simp
  have 3: "tail ?p1 = Inr (Fork [(c, st)] cof)" by (simp add: tail_last)
  show ?thesis using 1 2 3 False assms(1) by (auto simp: tail_last)
next
  case True
  then obtain es0 f0 where l: "last (steps p) = Fork es0 f0" by blast
  then have cnt: "count_list (map fst es0) c \<le> 1" using assms by (simp add: tail_last)
  define es where "es = (if c \<in> set (map fst es0) then es0 else es0 @ [(c, st)])"
  define p1 where "p1 = (if c \<in> set (map fst es0) then p
                         else p\<lparr>steps := butlast (steps p) @ [Fork (es0 @ [(c, st)]) f0]\<rparr>)"
  have 1: "fork p c st cof = (Inr (), p1)"
    using fork_fork_tail[OF assms(1) l] by (simp add: p1_def)
  have l1: "steps p1 \<noteq> []" "last (steps p1) = Fork es f0"
    using assms(1) l by (auto simp: p1_def es_def)
  have mem: "c \<in> set (map fst es)" by (auto simp: es_def)
  have 2: "fork p1 c st' cof' = (Inr (), p1)"
    using fork_fork_tail[OF l1, of c st' cof'] mem by simp
  have 3: "tail p1 = Inr (Fork es f0)" using l1 by (simp add: tail_last)
  have 4: "count_list (map fst es) c = 1"
  proof (cases "c \<in> set (map fst es0)")
    case True
    then have "count_list (map fst es0) c \<noteq> 0"
      using count_list_0_iff[of "map fst es0" c] by simp
    with cnt True show ?thesis by (simp add: es_def)
  next
    case False
    then have "count_list (map fst es0) c = 0"
      using count_list_0_iff[of "map fst es0" c] by simp
    with False show ?thesis by (simp add: es_def)
  qed
  have 5: "length (steps p1) = length (steps p)" using assms(1) by (simp add: p1_def)
  have 6: "tail p = Inr (Fork es0 f0)" using assms(1) l by (simp add: tail_last)
  have 7: "(\<forall>es0 f0. tail p \<noteq> Inr (Fork es0 f0)) \<longrightarrow> steps p1 = steps p @ [Fork [(c, st)] cof]"
    using 6 by blast
  from 1 2 3 4 5 7 show ?thesis by blast
qed

theorem fork_twice_single_edge_witness:
  "\<exists>p1. fork numbers_pipe 5 (- 1) False = (Inr (), p1)
       \<and> fork p1 5 0 True = (Inr (), p1)
       \<and> tail p1 = Inr (Fork [(5, - 1)] False)
       \<and> steps p1 = [Obj (IList [IInt 1, IInt 2]), double_step, drop_step, Fork [(5, - 1)] False]"
proof -
  have ne: "steps numbers_pipe \<noteq> []" by (simp add: numbers_pipe_def)
  have t: "tail numbers_pipe = Inr drop_step"
    by (simp add: tail_def py_index_def numbers_pipe_def)
  have nf: "\<forall>es f. tail numbers_pipe = Inr (Fork es f) \<longrightarrow> count_list (map fst es) 5 \<le> 1"
    by (simp add: t drop_step_def)
  have nf': "\<forall>es0 f0. tail numbers_pipe \<noteq> Inr (Fork es0 f0)"
    by (simp add: t drop_step_def)
  obtain p1 es f where a: "fork numbers_pipe 5 (- 1) False = (Inr (), p1)"
    and b: "fork p1 5 0 True = (Inr (), p1)"
    and c: "tail p1 = Inr (Fork es f)"
    and d: "steps p1 = steps numbers_pipe @ [Fork [(5, - 1)] False]"
    using fork_twice_single_edge[OF ne nf, of "- 1" False 0 True] nf' by blast
  have "tail p1 = Inr (Fork [(5, - 1)] False)"
    by (simp add: tail_def py_index_def d)
  then show ?thesis using a b d by (simp add: numbers_pipe_def)
qed

section \<open>Evaluating the head twice\<close>

lemma is_data_bound_root: "parent p = None \<Longrightarrow> is_data_bound ob p = Some (\<not> is_empty p)"
  by (subst is_data_bound.simps) simp

text \<open>
  C10. On a pipe without parent whose generator is the head (\<^verbatim>\<open>_gen_idx = 0\<close>), once
  \<^verbatim>\<open>evaluate_gen\<close> has succeeded and the generator it left is an iterator, a second
  \<^verbatim>\<open>evaluate_gen\<close> succeeds and leaves the pipe, its step list included, as it is.
\<close>

theorem evaluate_gen_twice:
  assumes "parent p = None" and "gen_idx p = 0"
    and "evaluate_gen cp ob p = Some (Inr (), p1)"
    and "\<exists>x. gen p1 = Inr (Obj x) \<and> is_Iterator x"
  shows "evaluate_gen cp ob p1 = Some (Inr (), p1)"
proof -
  have shape: "parent p1 = None \<and> gen_idx p1 = 0 \<and> steps p1 \<noteq> []"
    using assms(1-3)
    by (auto simp: evaluate_gen_def is_data_bound_root is_empty_def has_parent_def
        split: if_splits sum.splits step.splits)
  from assms(4) obtain x where x: "gen p1 = Inr (Obj x)" "is_Iterator x" by blast
  then obtain f k where fk: "x = IIter f k" by (cases x) auto
  have hd: "steps p1 ! 0 = Obj (IIter f k)"
    using x(1) shape fk by (auto simp: gen_def py_index_def split: if_splits)
  have "(steps p1)[0 := Obj (IIter f k)] = steps p1"
    using hd list_update_id[of "steps p1" 0] by simp
  then show ?thesis
    using shape x(1) fk
    by (simp add: evaluate_gen_def is_data_bound_root is_empty_def has_parent_def)
qed

theorem evaluate_gen_twice_witness:
  "evaluate_gen id (\<lambda>r. list_pipe) list_pipe
     = Some (Inr (), list_pipe\<lparr>steps := [Obj (iter_of_list [IInt 1, IInt 2]), double_step]\<rparr>)
   \<and> evaluate_gen id (\<lambda>r. list_pipe) (list_pipe\<lparr>steps := [Obj (iter_of_list [IInt 1, IInt 2]), double_step]\<rparr>)
     = Some (Inr (), list_pipe\<lparr>steps := [Obj (iter_of_list [IInt 1, IInt 2]), double_step]\<rparr>)"
proof -
  let ?p1 = "list_pipe\<lparr>steps := [Obj (iter_of_list [IInt 1, IInt 2]), double_step]\<rparr>"
  have a: "parent list_pipe = None" "gen_idx list_pipe = 0" by (simp_all add: list_pipe_def)
  have b: "evaluate_gen id (\<lambda>r. list_pipe) list_pipe = Some (Inr (), ?p1)"
    by (simp add: evaluate_gen_def is_data_bound_root a)
       (simp add: list_pipe_def gen_def py_index_def is_empty_def has_parent_def)
  have c: "\<exists>x. gen ?p1 = Inr (Obj x) \<and> is_Iterator x"
    by (simp add: gen_def py_index_def list_pipe_def iter_of_list_def)
  show ?thesis using evaluate_gen_twice[OF a b c] b by simp
qed

section \<open>Cloning pipes with an empty parent\<close>

text \<open>
  C4. The claim: after \<^verbatim>\<open>clone_pipes\<close> every input pipe has a fresh clone, clones whose
  originals had the same parent share one cloned parent, and no pipe reachable through a
  clone's parent links is an original. It fails for a transformer pipe (at address 1)
  whose parent (at address 0) is a pipe without steps: \<^verbatim>\<open>not clone.parent\<close> is true for
  the empty parent, the loop stops, and the clone (at address 2) keeps the original
  parent object.
\<close>

theorem clone_pipes_keeps_empty_parent:
  "\<exists>h'. clone_pipes unbound_heap [1] = Some ([2], h')
        \<and> parent (objs unbound_heap 1) = Some 0
        \<and> objs unbound_heap 0 = empty_pipe \<and> is_empty empty_pipe
        \<and> 0 < next_id unbound_heap
        \<and> parent (objs h' 2) = Some 0"
  by (simp add: clone_pipes_def pipe_clone_def unbound_heap_def Let_def fix_parents.simps
      pipe_truthy_def empty_pipe_def child_pipe_def is_empty_def)

text \<open>
  With a parent that has steps: two transformers (at 1 and 2) of the same parent (at 0)
  get clones (at 3 and 4) that both point to the one clone of the parent (at 5).
\<close>

lemma clone_pipes_shares_cloned_parent:
  "\<exists>h'. clone_pipes bound_heap [1, 2] = Some ([3, 4], h')
        \<and> parent (objs h' 3) = Some 5 \<and> parent (objs h' 4) = Some 5
        \<and> steps (objs h' 5) = steps numbers_pipe \<and> parent (objs h' 5) = None
        \<and> next_id h' = 6"
  by (simp add: clone_pipes_def pipe_clone_def bound_heap_def Let_def fix_parents.simps
      pipe_truthy_def numbers_pipe_def child_pipe_def)

section \<open>ManagedPipeIterator: releasing the context manager\<close>


lemma boom_next: "pipe_next cp 1 boom_state
   = Some (Inl (OtherException ''boom''),
           idle_state\<lparr>sources := [SourcePipeItem (IIter (\<lambda>k. Some (Inl (OtherException ''boom''))) 1) 0 0 INone]\<rparr>)"
  by (simp add: pipe_next_def loop_body_def fetch_def boom_state_def idle_state_def
      get_source_item.simps boom_iter_def)



text \<open>
  The handler tests the truth value of \<^verbatim>\<open>_context_manager\<close>: a manager that is set and
  falsy is never exited, while the dispatcher is closed and the exception raised again.
\<close>

lemma falsy_manager_is_not_released:
  "managed_next id (Suc 0)
     \<lparr>disp = boom_state, context_manager = Some (ContextManager False None (\<lambda>info. None)),
        exit_calls = []\<rparr>
     = Some (Inl (OtherException ''boom''),
             \<lparr>disp = idle_state, context_manager = Some (ContextManager False None (\<lambda>info. None)),
                exit_calls = []\<rparr>)"
  using boom_next[of id]
  by (simp add: managed_next_def release_def close_def idle_state_def)



section \<open>Exceptions of a transform step\<close>

lemma typeerr_step_binds: "sig_bind (signature typeerr_step) 1 [''meta'']"
  by (simp add: typeerr_step_def sig_bind_def positional_def by_keyword_def)

lemma typeerr_step_call:
  "step_call cp typeerr_step (Args [x] (Some m)) = Inl (TypeError ''unsupported operand'')"
  by (simp add: typeerr_step_def sig_bind_def positional_def by_keyword_def)

text \<open>
  C3, as stated, fails: \<open>typeerr_step\<close> accepts \<^verbatim>\<open>(item, meta=...)\<close>, so the call is no
  signature mismatch, and its body raises \<^verbatim>\<open>TypeError\<close>; \<^verbatim>\<open>__next__\<close> raises
  \<^verbatim>\<open>InvalidStepFunctionArguments\<close>, not the \<^verbatim>\<open>TypeError\<close>.
\<close>

theorem body_TypeError_is_wrapped:
  "sig_bind (signature typeerr_step) 1 [''meta'']
   \<and> step_call id typeerr_step (Args [IInt 1] (Some INone)) = Inl (TypeError ''unsupported operand'')
   \<and> pipe_next id (Suc 0) broken_state
       = Some (Inl (InvalidStepFunctionArguments ''broken'' ''unsupported operand''),
               broken_state\<lparr>sources := [SourcePipeItem (IIter (\<lambda>k. if k < 1 then Some (Inr ([IInt 1] ! k)) else None) 1) 0 0 INone]\<rparr>)"
proof -
  have f: "fetch broken_state = (Inr (Some (PipeItem (IInt 1) 0 0 INone)),
      broken_state\<lparr>sources := [SourcePipeItem (IIter (\<lambda>k. if k < 1 then Some (Inr ([IInt 1] ! k)) else None) 1) 0 0 INone]\<rparr>)"
    by (simp add: fetch_def broken_state_def idle_state_def get_source_item.simps iter_of_list_def)
  have p: "process id (broken_state\<lparr>sources := xs\<rparr>) (PipeItem (IInt 1) 0 0 INone)
      = Raise (InvalidStepFunctionArguments ''broken'' ''unsupported operand'') (broken_state\<lparr>sources := xs\<rparr>)" for xs
    by (simp add: process_def broken_state_def broken_pipe_def py_index_def typeerr_step_def
        sig_bind_def positional_def by_keyword_def)
  show ?thesis
    using typeerr_step_binds typeerr_step_call[of id]
    by (simp add: pipe_next_def loop_body_def f p)
qed

lemma mismatch_is_TypeError:
  "step_callable s \<Longrightarrow> \<not> sig_bind (signature s) 1 [''meta''] \<Longrightarrow>
     step_call cp s (Args [x] (Some m)) = Inl (TypeError ''signature'')"
  by (cases s; cases "case s of Obj y \<Rightarrow> y | _ \<Rightarrow> INone")
     (auto simp: sig_bind_def positional_def by_keyword_def)

text \<open>
  C3, amended. When the call of the next transform step raises \<open>e\<close>: a signature
  mismatch of the call is a \<^verbatim>\<open>TypeError\<close>; every \<^verbatim>\<open>TypeError\<close>, from the call or from
  the body of the step, is raised as \<^verbatim>\<open>InvalidStepFunctionArguments\<close>; every other
  exception is raised unchanged.
\<close>

theorem step_failure_wrapped_iff_TypeError:
  assumes "\<not> is_Iterator (pi_item pi)" and "\<not> is_Awaitable (pi_item pi)"
    and "\<not> item_callable (pi_item pi)"
    and "pi_step pi \<noteq> int (length (steps (pipes st (pi_pipe pi)))) - 1"
    and "py_index (steps (pipes st (pi_pipe pi))) (pi_step pi + 1) = Some k"
    and "step_callable (steps (pipes st (pi_pipe pi)) ! k)"
    and "step_call cp (steps (pipes st (pi_pipe pi)) ! k) (Args [pi_item pi] (Some (pi_meta pi))) = Inl e"
  shows "(\<not> sig_bind (signature (steps (pipes st (pi_pipe pi)) ! k)) 1 [''meta''] \<longrightarrow> is_TypeError e)
       \<and> (\<forall>msg. e = TypeError msg \<longrightarrow>
             process cp st pi = Raise (InvalidStepFunctionArguments (name (pipes st (pi_pipe pi))) msg) st)
       \<and> (\<not> is_TypeError e \<longrightarrow> process cp st pi = Raise e st)"
proof -
  have a: "\<not> sig_bind (signature (steps (pipes st (pi_pipe pi)) ! k)) 1 [''meta''] \<longrightarrow> is_TypeError e"
    using mismatch_is_TypeError[OF assms(6), of cp "pi_item pi" "pi_meta pi"] assms(7) by auto
  have b: "\<forall>msg. e = TypeError msg \<longrightarrow>
             process cp st pi = Raise (InvalidStepFunctionArguments (name (pipes st (pi_pipe pi))) msg) st"
    using assms by (simp add: process_def Let_def)
  have c: "\<not> is_TypeError e \<longrightarrow> process cp st pi = Raise e st"
    using assms by (cases e) (simp_all add: process_def Let_def)
  from a b c show ?thesis by blast
qed

theorem step_failure_wrapped_iff_TypeError_witness:
  "process id broken_state (PipeItem (IInt 1) 0 0 INone)
     = Raise (InvalidStepFunctionArguments ''broken'' ''unsupported operand'') broken_state
   \<and> process id broken_state (PipeItem (IInt 1) 1 0 INone)
     = Raise (OtherException ''bad value'') broken_state"
proof -
  have p: "pipes broken_state 0 = broken_pipe" by (simp add: broken_state_def)
  have l: "int (length (steps broken_pipe)) - 1 = 2" by (simp add: broken_pipe_def)
  have c1: "step_call id (steps broken_pipe ! 1) (Args [IInt 1] (Some INone))
              = Inl (TypeError ''unsupported operand'')"
    by (simp add: broken_pipe_def typeerr_step_call)
  have c2: "step_call id (steps broken_pipe ! 2) (Args [IInt 1] (Some INone))
              = Inl (OtherException ''bad value'')"
    by (simp add: broken_pipe_def failing_step_def sig_bind_def positional_def by_keyword_def)
  have a: "process id broken_state (PipeItem (IInt 1) 0 0 INone)
     = Raise (InvalidStepFunctionArguments (name (pipes broken_state 0)) ''unsupported operand'') broken_state"
    using step_failure_wrapped_iff_TypeError[of "PipeItem (IInt 1) 0 0 INone" broken_state 1 id
        "TypeError ''unsupported operand''"] c1
    by (simp add: p l py_index_def) (simp add: broken_pipe_def typeerr_step_def)
  have b: "process id broken_state (PipeItem (IInt 1) 1 0 INone) = Raise (OtherException ''bad value'') broken_state"
    using step_failure_wrapped_iff_TypeError[of "PipeItem (IInt 1) 1 0 INone" broken_state 2 id
        "OtherException ''bad value''"] c2
    by (simp add: p l py_index_def) (simp add: broken_pipe_def failing_step_def)
  show ?thesis using a b by (simp add: p broken_pipe_def)
qed

section \<open>None values\<close>

lemma nones_next:
  "pipe_next id (Suc 0) nones_state
     = Some (Inr (PipeItem INone 0 0 INone),
             nones_state\<lparr>sources := [SourcePipeItem (IIter (\<lambda>k. if k < 1 then Some (Inr ([INone] ! k)) else None) 1) 0 0 INone]\<rparr>)"
proof -
  have f: "fetch nones_state = (Inr (Some (PipeItem INone 0 0 INone)),
      nones_state\<lparr>sources := [SourcePipeItem (IIter (\<lambda>k. if k < 1 then Some (Inr ([INone] ! k)) else None) 1) 0 0 INone]\<rparr>)"
    by (simp add: fetch_def nones_state_def idle_state_def get_source_item.simps iter_of_list_def)
  have p: "process id (nones_state\<lparr>sources := xs\<rparr>) (PipeItem INone 0 0 INone)
      = Return (PipeItem INone 0 0 INone) (nones_state\<lparr>sources := xs\<rparr>)" for xs
    by (simp add: process_def nones_state_def nones_pipe_def)
  show ?thesis by (simp add: pipe_next_def loop_body_def f p)
qed

text \<open>
  C2, as stated, fails: a source iterator that yields \<^verbatim>\<open>None\<close> in a pipe whose only
  step is its head makes \<^verbatim>\<open>__next__\<close> return a \<^verbatim>\<open>PipeItem\<close> whose value is \<^verbatim>\<open>None\<close>.
\<close>

theorem source_None_is_yielded:
  "pipe_next id (Suc 0) nones_state
     = Some (Inr (PipeItem INone 0 0 INone),
             nones_state\<lparr>sources := [SourcePipeItem (IIter (\<lambda>k. if k < 1 then Some (Inr ([INone] ! k)) else None) 1) 0 0 INone]\<rparr>)"
  by (rule nones_next)

lemma process_Return: "process cp st pi = Return pi' st' \<Longrightarrow> pi' = pi \<and> st' = st"
  by (auto simp: process_def Let_def split: if_splits option.splits sum.splits item.splits exn.splits)

lemma process_Continue_Some:
  "process cp st pi = Continue (Some pi') st' \<Longrightarrow> pi_item pi' \<noteq> INone"
  by (auto simp: process_def Let_def split: if_splits option.splits sum.splits item.splits exn.splits)

lemma loop_body_Continue_Some:
  assumes "loop_body cp st c = Continue (Some pi') st'"
  shows "pi_item pi' \<noteq> INone"
proof (cases c)
  case (Some pi)
  then show ?thesis using assms process_Continue_Some by (simp add: loop_body_def)
next
  case None
  obtain r st1 where f: "fetch st = (r, st1)" by (cases "fetch st")
  show ?thesis
  proof (cases r)
    case (Inl e)
    then show ?thesis using assms None f by (simp add: loop_body_def)
  next
    case (Inr o1)
    then show ?thesis using assms None f
      by (cases o1) (auto simp: loop_body_def split: if_splits dest: process_Continue_Some)
  qed
qed

lemma loop_body_Return_None:
  assumes "loop_body cp st None = Return pi st'"
  shows "fetch st = (Inr (Some pi), st')"
proof -
  obtain r st1 where f: "fetch st = (r, st1)" by (cases "fetch st")
  show ?thesis
  proof (cases r)
    case (Inl e)
    then show ?thesis using assms f by (simp add: loop_body_def)
  next
    case (Inr o1)
    then show ?thesis using assms f
      by (cases o1) (auto simp: loop_body_def split: if_splits dest: process_Return)
  qed
qed

lemma next_loop_None_fetched:
  "next_loop cp n st c = Some (Inr pi, st') \<Longrightarrow> pi_item pi = INone \<Longrightarrow>
     (\<forall>pi0. c = Some pi0 \<longrightarrow> pi_item pi0 \<noteq> INone) \<Longrightarrow>
     \<exists>k s. k < n \<and> passes cp k st c = Some (s, None) \<and> fetch s = (Inr (Some pi), st')"
proof (induction n arbitrary: st c)
  case 0
  then show ?case by simp
next
  case (Suc n)
  show ?case
  proof (cases "loop_body cp st c")
    case (Continue c1 st1)
    then have nl: "next_loop cp n st1 c1 = Some (Inr pi, st')" using Suc.prems(1) by simp
    have "\<forall>pi0. c1 = Some pi0 \<longrightarrow> pi_item pi0 \<noteq> INone"
      using Continue loop_body_Continue_Some by blast
    from Suc.IH[OF nl Suc.prems(2) this]
    obtain k s where k: "k < n" "passes cp k st1 c1 = Some (s, None)"
      "fetch s = (Inr (Some pi), st')" by blast
    have "passes cp (Suc k) st c = Some (s, None)" using Continue k(2) by simp
    with k(1,3) show ?thesis by (intro exI[of _ "Suc k"] exI[of _ s]) simp
  next
    case (Return pi1 st1)
    then have eq: "pi1 = pi" "st1 = st'" using Suc.prems(1) by simp_all
    show ?thesis
    proof (cases c)
      case None
      then have "fetch st = (Inr (Some pi), st')"
        using Return eq loop_body_Return_None by blast
      then show ?thesis using None by (intro exI[of _ 0] exI[of _ st]) simp
    next
      case (Some pi0)
      then have "process cp st pi0 = Return pi st'" using Return eq by (simp add: loop_body_def)
      then have "pi = pi0" using process_Return by blast
      then show ?thesis using Some Suc.prems(2,3) by simp
    qed
  next
    case (Raise e st1)
    then show ?thesis using Suc.prems(1) by simp
  qed
qed

lemma drop_step_call: "step_call cp drop_step (Args [x] (Some m)) = Inr INone"
  by (simp add: drop_step_def sig_bind_def positional_def by_keyword_def)

lemma double_step_call: "step_call cp double_step (Args [IInt n] (Some m)) = Inr (IInt (2 * n))"
  by (simp add: double_step_def sig_bind_def positional_def by_keyword_def)

lemma resolve_futures_none_done:
  "first_done (clock st) (futures st) = None \<Longrightarrow> resolve_futures st = (Inr None, st)"
  by (subst resolve_futures.simps) simp

lemma fetch_source_None:
  assumes "first_done (clock st) (futures st) = None"
    and "sources st \<noteq> []"
    and "last (sources st) = SourcePipeItem g step pipe meta"
    and "py_next g = (Some (Inr v), g')"
    and "v = INone \<and> meta' = meta \<or> v = IWithMeta INone meta'"
  shows "fetch st = (Inr (Some (PipeItem INone step pipe meta')),
                     st\<lparr>sources := butlast (sources st) @ [SourcePipeItem g' step pipe meta]\<rparr>)"
proof -
  have "fetch st = get_source_item st"
    using assms(1) by (simp add: fetch_def resolve_futures_none_done)
  also have "\<dots> = (Inr (Some (PipeItem INone step pipe meta')),
                     st\<lparr>sources := butlast (sources st) @ [SourcePipeItem g' step pipe meta]\<rparr>)"
    using assms(2-5) by (subst get_source_item.simps) auto
  finally show ?thesis .
qed

lemma fetch_future_None:
  assumes "first_done (clock st) (futures st) = Some idx"
    and "futures st ! idx = FuturePipeItem fu step pipe meta"
    and "outcome fu = Some (Inr v)"
    and "v = INone \<and> meta' = meta \<or> v = IWithMeta INone meta'"
  shows "fetch st = (Inr (Some (PipeItem INone step pipe meta')),
                     st\<lparr>futures := take idx (futures st) @ drop (Suc idx) (futures st)\<rparr>)"
proof -
  have ne: "length (futures st) \<noteq> 0" using first_done_less[OF assms(1)] by auto
  have "resolve_futures st = (Inr (Some (PipeItem INone step pipe meta')),
                     st\<lparr>futures := take idx (futures st) @ drop (Suc idx) (futures st)\<rparr>)"
    using assms ne by (subst resolve_futures.simps) auto
  then show ?thesis using ne by (simp add: fetch_def)
qed

lemma process_last_None:
  "step = int (length (steps (pipes st pipe))) - 1 \<Longrightarrow>
     process cp st (PipeItem INone step pipe meta) = Return (PipeItem INone step pipe meta) st"
  by (simp add: process_def)

lemma fetched_None_returned:
  assumes "fetch st = (Inr (Some (PipeItem INone step pipe meta)), st1)"
    and "pipes st1 = pipes st"
    and "step = int (length (steps (pipes st pipe))) - 1"
  shows "pipe_next cp (Suc n) st = Some (Inr (PipeItem INone step pipe meta), st1)"
  using assms process_last_None[of step st1 pipe cp meta]
  by (simp add: pipe_next_def loop_body_def)

text \<open>
  C2, amended. When a transform step returns \<^verbatim>\<open>None\<close>, bare or as the data of a
  \<^verbatim>\<open>DataItemWithMeta\<close>, the item is dropped: the pass ends with no item carried on and
  the dispatcher unchanged. An item that a pass hands on to later steps never has the
  value \<^verbatim>\<open>None\<close>. When \<^verbatim>\<open>__next__\<close> returns a \<^verbatim>\<open>PipeItem\<close> whose value is \<^verbatim>\<open>None\<close>, its
  last pass began with \<^verbatim>\<open>pipe_item = None\<close> and that item is what \<open>fetch\<close> took from a
  future or a source in it: it came from no transform. A \<^verbatim>\<open>None\<close> from a source is not
  filtered: when no future is done, the newest source yields \<^verbatim>\<open>None\<close> (bare, or as the
  data of a \<^verbatim>\<open>DataItemWithMeta\<close>) and its step is the last of its pipe, \<^verbatim>\<open>__next__\<close>
  returns a \<^verbatim>\<open>PipeItem\<close> whose value is \<^verbatim>\<open>None\<close>. Nor is a \<^verbatim>\<open>None\<close> from a future: when
  the first future that is done has the result \<^verbatim>\<open>None\<close> (bare, or as the data of a
  \<^verbatim>\<open>DataItemWithMeta\<close>) and its step is the last of its pipe, \<^verbatim>\<open>__next__\<close> returns a
  \<^verbatim>\<open>PipeItem\<close> whose value is \<^verbatim>\<open>None\<close>.
\<close>

theorem None_from_transform_is_dropped:
  "(\<not> is_Iterator (pi_item pi) \<and> \<not> is_Awaitable (pi_item pi) \<and> \<not> item_callable (pi_item pi)
      \<and> pi_step pi \<noteq> int (length (steps (pipes st (pi_pipe pi)))) - 1
      \<and> py_index (steps (pipes st (pi_pipe pi))) (pi_step pi + 1) = Some k
      \<and> step_callable (steps (pipes st (pi_pipe pi)) ! k)
      \<and> step_call cp (steps (pipes st (pi_pipe pi)) ! k) (Args [pi_item pi] (Some (pi_meta pi))) = Inr r
      \<and> (r = INone \<or> (\<exists>m. r = IWithMeta INone m))
      \<longrightarrow> process cp st pi = Continue None st)
   \<and> (process cp st pi = Continue (Some pi') st' \<longrightarrow> pi_item pi' \<noteq> INone)
   \<and> (pipe_next cp n st = Some (Inr pi, st') \<and> pi_item pi = INone
      \<longrightarrow> (\<exists>k s. k < n \<and> passes cp k st None = Some (s, None)
                  \<and> fetch s = (Inr (Some pi), st')))
   \<and> (first_done (clock st) (futures st) = None
      \<and> sources st \<noteq> [] \<and> last (sources st) = SourcePipeItem g step pipe meta
      \<and> py_next g = (Some (Inr v), g')
      \<and> (v = INone \<and> meta' = meta \<or> v = IWithMeta INone meta')
      \<and> step = int (length (steps (pipes st pipe))) - 1
      \<longrightarrow> pipe_next cp (Suc n) st
            = Some (Inr (PipeItem INone step pipe meta'),
                    st\<lparr>sources := butlast (sources st) @ [SourcePipeItem g' step pipe meta]\<rparr>))
   \<and> (first_done (clock st) (futures st) = Some idx
      \<and> futures st ! idx = FuturePipeItem fu step pipe meta
      \<and> outcome fu = Some (Inr v)
      \<and> (v = INone \<and> meta' = meta \<or> v = IWithMeta INone meta')
      \<and> step = int (length (steps (pipes st pipe))) - 1
      \<longrightarrow> pipe_next cp (Suc n) st
            = Some (Inr (PipeItem INone step pipe meta'),
                    st\<lparr>futures := take idx (futures st) @ drop (Suc idx) (futures st)\<rparr>))"
proof -
  have a: "\<not> is_Iterator (pi_item pi) \<and> \<not> is_Awaitable (pi_item pi) \<and> \<not> item_callable (pi_item pi)
      \<and> pi_step pi \<noteq> int (length (steps (pipes st (pi_pipe pi)))) - 1
      \<and> py_index (steps (pipes st (pi_pipe pi))) (pi_step pi + 1) = Some k
      \<and> step_callable (steps (pipes st (pi_pipe pi)) ! k)
      \<and> step_call cp (steps (pipes st (pi_pipe pi)) ! k) (Args [pi_item pi] (Some (pi_meta pi))) = Inr r
      \<and> (r = INone \<or> (\<exists>m. r = IWithMeta INone m))
      \<longrightarrow> process cp st pi = Continue None st"
    by (auto simp: process_def Let_def)
  have b: "process cp st pi = Continue (Some pi') st' \<longrightarrow> pi_item pi' \<noteq> INone"
    using process_Continue_Some by blast
  have c: "pipe_next cp n st = Some (Inr pi, st') \<and> pi_item pi = INone
      \<longrightarrow> (\<exists>k s. k < n \<and> passes cp k st None = Some (s, None)
                  \<and> fetch s = (Inr (Some pi), st'))"
    using next_loop_None_fetched[of cp n st None pi st'] by (simp add: pipe_next_def)
  have d: "first_done (clock st) (futures st) = None
      \<and> sources st \<noteq> [] \<and> last (sources st) = SourcePipeItem g step pipe meta
      \<and> py_next g = (Some (Inr v), g')
      \<and> (v = INone \<and> meta' = meta \<or> v = IWithMeta INone meta')
      \<and> step = int (length (steps (pipes st pipe))) - 1
      \<longrightarrow> pipe_next cp (Suc n) st
            = Some (Inr (PipeItem INone step pipe meta'),
                    st\<lparr>sources := butlast (sources st) @ [SourcePipeItem g' step pipe meta]\<rparr>)"
  proof (intro impI, elim conjE)
    assume h: "first_done (clock st) (futures st) = None" "sources st \<noteq> []"
      "last (sources st) = SourcePipeItem g step pipe meta" "py_next g = (Some (Inr v), g')"
      "v = INone \<and> meta' = meta \<or> v = IWithMeta INone meta'"
      "step = int (length (steps (pipes st pipe))) - 1"
    from fetch_source_None[OF h(1-5)] h(6) show "pipe_next cp (Suc n) st
            = Some (Inr (PipeItem INone step pipe meta'),
                    st\<lparr>sources := butlast (sources st) @ [SourcePipeItem g' step pipe meta]\<rparr>)"
      by (intro fetched_None_returned) simp_all
  qed
  have e: "first_done (clock st) (futures st) = Some idx
      \<and> futures st ! idx = FuturePipeItem fu step pipe meta
      \<and> outcome fu = Some (Inr v)
      \<and> (v = INone \<and> meta' = meta \<or> v = IWithMeta INone meta')
      \<and> step = int (length (steps (pipes st pipe))) - 1
      \<longrightarrow> pipe_next cp (Suc n) st
            = Some (Inr (PipeItem INone step pipe meta'),
                    st\<lparr>futures := take idx (futures st) @ drop (Suc idx) (futures st)\<rparr>)"
  proof (intro impI, elim conjE)
    assume h: "first_done (clock st) (futures st) = Some idx"
      "futures st ! idx = FuturePipeItem fu step pipe meta" "outcome fu = Some (Inr v)"
      "v = INone \<and> meta' = meta \<or> v = IWithMeta INone meta'"
      "step = int (length (steps (pipes st pipe))) - 1"
    from fetch_future_None[OF h(1-4)] h(5) show "pipe_next cp (Suc n) st
            = Some (Inr (PipeItem INone step pipe meta'),
                    st\<lparr>futures := take idx (futures st) @ drop (Suc idx) (futures st)\<rparr>)"
      by (intro fetched_None_returned) simp_all
  qed
  from a b c d e show ?thesis by blast
qed

theorem None_from_transform_is_dropped_witness:
  "process id idle_state (PipeItem (IInt 2) 1 0 INone) = Continue None idle_state
   \<and> process id idle_state (PipeItem (IInt 1) 0 0 INone)
       = Continue (Some (PipeItem (IInt 2) 1 0 INone)) idle_state
   \<and> pi_item (PipeItem (IInt 2) 1 0 INone) \<noteq> INone
   \<and> (\<exists>st'. pipe_next id (Suc 0) nones_state = Some (Inr (PipeItem INone 0 0 INone), st')
        \<and> fetch nones_state = (Inr (Some (PipeItem INone 0 0 INone)), st'))
   \<and> pipe_next id (Suc 0) nones_state
       = Some (Inr (PipeItem INone 0 0 INone),
               nones_state\<lparr>sources := [SourcePipeItem (IIter (\<lambda>k. if k < 1 then Some (Inr ([INone] ! k)) else None) 1) 0 0 INone]\<rparr>)
   \<and> pipe_next id (Suc 0) none_future_state
       = Some (Inr (PipeItem INone 0 0 INone), none_future_state\<lparr>futures := []\<rparr>)"
proof -
  have p: "pipes idle_state 0 = numbers_pipe" by (simp add: idle_state_def)
  have s: "steps numbers_pipe = [Obj (IList [IInt 1, IInt 2]), double_step, drop_step]"
    by (simp add: numbers_pipe_def)
  have c: "step_callable drop_step" "step_callable double_step"
    by (simp_all add: drop_step_def double_step_def)
  have a: "process id idle_state (PipeItem (IInt 2) 1 0 INone) = Continue None idle_state"
    using None_from_transform_is_dropped[where pi = "PipeItem (IInt 2) 1 0 INone"
        and st = idle_state and k = 2 and cp = id and r = INone]
    by (simp add: p s py_index_def c drop_step_call)
  have b0: "process id idle_state (PipeItem (IInt 1) 0 0 INone)
       = Continue (Some (PipeItem (IInt 2) 1 0 INone)) idle_state"
    by (simp add: process_def p s py_index_def c double_step_call)
  have b: "pi_item (PipeItem (IInt 2) 1 0 INone) \<noteq> INone"
    using None_from_transform_is_dropped[where pi = "PipeItem (IInt 1) 0 0 INone"
        and st = idle_state and cp = id and pi' = "PipeItem (IInt 2) 1 0 INone"
        and st' = idle_state] b0 by blast
  have d: "pipe_next id (Suc 0) nones_state
       = Some (Inr (PipeItem INone 0 0 INone),
               nones_state\<lparr>sources := [SourcePipeItem (IIter (\<lambda>k. if k < 1 then Some (Inr ([INone] ! k)) else None) 1) 0 0 INone]\<rparr>)"
    using None_from_transform_is_dropped[where st = nones_state and cp = id and n = 0
        and g = "iter_of_list [INone]" and step = 0 and pipe = 0 and meta = INone
        and meta' = INone and v = INone
        and g' = "IIter (\<lambda>k. if k < 1 then Some (Inr ([INone] ! k)) else None) 1"]
    by (simp add: nones_state_def idle_state_def nones_pipe_def iter_of_list_def)
  have "\<exists>k s. k < Suc 0 \<and> passes id k nones_state None = Some (s, None)
             \<and> fetch s = (Inr (Some (PipeItem INone 0 0 INone)),
                 nones_state\<lparr>sources := [SourcePipeItem (IIter (\<lambda>k. if k < 1 then Some (Inr ([INone] ! k)) else None) 1) 0 0 INone]\<rparr>)"
    using None_from_transform_is_dropped[where pi = "PipeItem INone 0 0 INone"
        and st = nones_state and cp = id and n = "Suc 0"
        and st' = "nones_state\<lparr>sources := [SourcePipeItem (IIter (\<lambda>k. if k < 1 then Some (Inr ([INone] ! k)) else None) 1) 0 0 INone]\<rparr>"] d
    by simp
  then have f: "fetch nones_state = (Inr (Some (PipeItem INone 0 0 INone)),
      nones_state\<lparr>sources := [SourcePipeItem (IIter (\<lambda>k. if k < 1 then Some (Inr ([INone] ! k)) else None) 1) 0 0 INone]\<rparr>)"
    by auto
  have e: "pipe_next id (Suc 0) none_future_state
       = Some (Inr (PipeItem INone 0 0 INone), none_future_state\<lparr>futures := []\<rparr>)"
    using None_from_transform_is_dropped[where st = none_future_state and cp = id and n = 0
        and idx = 0 and fu = "Future (Some 0) (Some (Inr INone))" and step = 0 and pipe = 0
        and meta = INone and meta' = INone and v = INone]
    by (simp add: none_future_state_def idle_state_def nones_pipe_def)
  from a b0 b d f e show ?thesis by blast
qed

section \<open>The bound on futures in flight\<close>

lemma first_done_None: "first_done t fs = None \<longleftrightarrow> \<not> list_ex (item_done t) fs"
  by (induction fs) (auto split: option.splits)

lemma item_done_mono: "item_done t f \<Longrightarrow> item_done (t + d) f"
  by (cases f; cases "case f of FuturePipeItem fu a b c \<Rightarrow> fu";
      cases "done_at (case f of FuturePipeItem fu a b c \<Rightarrow> fu)") auto

lemma resolve_futures_frame:
  "resolve_futures st = (r, st') \<Longrightarrow>
     clock st' = clock st \<and> max_parallel_items st' = max_parallel_items st
     \<and> length (futures st') \<le> length (futures st)
     \<and> (list_ex (item_done (clock st)) (futures st) \<longrightarrow> length (futures st') < length (futures st))"
proof (induction st arbitrary: r st' rule: resolve_futures.induct)
  case (1 st)
  show ?case
  proof (cases "first_done (clock st) (futures st)")
    case None
    then have nd: "\<not> list_ex (item_done (clock st)) (futures st)" by (simp add: first_done_None)
    have "st' = st" using "1.prems" None
      by (subst (asm) resolve_futures.simps) (auto split: if_splits)
    then show ?thesis using nd by simp
  next
    case (Some idx)
    then have idx: "idx < length (futures st)" by (rule first_done_less)
    then have ne: "length (futures st) \<noteq> 0" by auto
    obtain future step pipe meta where fi: "futures st ! idx = FuturePipeItem future step pipe meta"
      by (cases "futures st ! idx")
    let ?st1 = "st\<lparr>futures := take idx (futures st) @ drop (Suc idx) (futures st)\<rparr>"
    have len1: "length (futures ?st1) < length (futures st)" using idx by simp
    show ?thesis
    proof (cases "outcome future")
      case None
      then have rec: "resolve_futures ?st1 = (r, st')"
        using "1.prems" Some fi ne by (subst (asm) resolve_futures.simps) simp
      from "1.IH"[OF ne Some fi None rec] len1
      show ?thesis by auto
    next
      case (Some a)
      then have "st' = ?st1"
        using "1.prems" \<open>first_done (clock st) (futures st) = Some idx\<close> fi ne
        by (subst (asm) resolve_futures.simps)
           (auto split: sum.splits item.splits)
      then show ?thesis using len1 by auto
    qed
  qed
qed

lemma get_source_item_frame:
  "get_source_item st = (r, st') \<Longrightarrow>
     futures st' = futures st \<and> clock st' = clock st
     \<and> max_parallel_items st' = max_parallel_items st"
proof (induction st arbitrary: r st' rule: get_source_item.induct)
  case (1 st)
  show ?case
  proof (cases "length (sources st) = 0")
    case True
    then show ?thesis using "1.prems" by (subst (asm) get_source_item.simps) auto
  next
    case False
    obtain g step pipe meta where l: "last (sources st) = SourcePipeItem g step pipe meta"
      by (cases "last (sources st)")
    obtain o1 g' where n: "py_next g = (o1, g')" by (cases "py_next g")
    let ?st1 = "st\<lparr>sources := butlast (sources st)\<rparr>"
    show ?thesis
    proof (cases "o1 = None \<or> o1 = Some (Inl StopIteration)")
      case True
      then have rec: "get_source_item ?st1 = (r, st')"
        using "1.prems" False l n by (subst (asm) get_source_item.simps) auto
      from True show ?thesis
      proof
        assume "o1 = None"
        from "1.IH"(1)[OF \<open>length (sources st) \<noteq> 0\<close> l n[symmetric] this rec]
        show ?thesis by simp
      next
        assume o: "o1 = Some (Inl StopIteration)"
        from "1.IH"(2)[OF \<open>length (sources st) \<noteq> 0\<close> l n[symmetric] o _ _ rec]
        show ?thesis by simp
      qed
    next
      case False
      then have "futures st' = futures st \<and> clock st' = clock st
                 \<and> max_parallel_items st' = max_parallel_items st"
        using "1.prems" \<open>length (sources st) \<noteq> 0\<close> l n
        by (subst (asm) get_source_item.simps)
           (auto split: option.splits sum.splits item.splits if_splits)
      then show ?thesis .
    qed
  qed
qed

lemma fetch_frame:
  assumes "fetch st = (r, st')"
  shows "clock st' = clock st \<and> max_parallel_items st' = max_parallel_items st
     \<and> length (futures st') \<le> length (futures st)
     \<and> (list_ex (item_done (clock st)) (futures st) \<longrightarrow> length (futures st') < length (futures st))"
proof (cases "length (futures st) > 0")
  case False
  then have "fetch st = get_source_item st" by (simp add: fetch_def)
  with assms get_source_item_frame[of st r st'] False show ?thesis by simp
next
  case True
  obtain r1 st1 where rf: "resolve_futures st = (r1, st1)" by (cases "resolve_futures st")
  note f1 = resolve_futures_frame[OF rf]
  show ?thesis
  proof (cases "r1 = Inr None")
    case True
    then have "get_source_item st1 = (r, st')" using assms rf \<open>length (futures st) > 0\<close>
      by (simp add: fetch_def)
    from get_source_item_frame[OF this] f1 show ?thesis by simp
  next
    case False
    then have "st' = st1" using assms rf \<open>length (futures st) > 0\<close>
      by (cases r1; cases "case r1 of Inr x \<Rightarrow> x | _ \<Rightarrow> None") (auto simp: fetch_def)
    with f1 show ?thesis by simp
  qed
qed

lemma next_future_nonneg: "(0 \<le> next_future st) = list_ex (item_done (clock st)) (futures st)"
  using first_done_None[of "clock st" "futures st"]
  by (cases "first_done (clock st) (futures st)") (auto simp: next_future_def)

lemma submit_futures:
  "futures (submit st pi) = futures st \<or> (\<exists>f. futures (submit st pi) = futures st @ [f])"
  by (auto simp: submit_def split: item.splits)

lemma submit_frame:
  "clock (submit st pi) = clock st \<and> max_parallel_items (submit st pi) = max_parallel_items st"
  by (auto simp: submit_def split: item.splits)

lemma process_cases:
  "process cp st pi = Continue (Some pi) (sleep st)
   \<or> ((int (length (futures st)) < max_parallel_items st \<or> 0 \<le> next_future st)
        \<and> process cp st pi = Continue None (submit st pi))
   \<or> futures (result_state (process cp st pi)) = futures st
        \<and> clock (result_state (process cp st pi)) = clock st
        \<and> max_parallel_items (result_state (process cp st pi)) = max_parallel_items st"
  by (auto simp: process_def Let_def split: option.splits sum.splits item.splits exn.splits)

lemma process_slots:
  assumes "int (length (futures st)) \<le> slots st"
  shows "slots_ok (result_state (process cp st pi)) (result_carry (process cp st pi))"
proof -
  consider (wait) "process cp st pi = Continue (Some pi) (sleep st)"
    | (sub) "int (length (futures st)) < max_parallel_items st \<or> 0 \<le> next_future st"
            "process cp st pi = Continue None (submit st pi)"
    | (same) "futures (result_state (process cp st pi)) = futures st"
             "clock (result_state (process cp st pi)) = clock st"
             "max_parallel_items (result_state (process cp st pi)) = max_parallel_items st"
    using process_cases[of cp st pi] by blast
  then show ?thesis
  proof cases
    case wait
    then show ?thesis using assms by (simp add: slots_ok_def slots_def sleep_def)
  next
    case sub
    from submit_futures[of st pi] show ?thesis
    proof
      assume "futures (submit st pi) = futures st"
      then show ?thesis using sub(2) assms submit_frame[of st pi]
        by (simp add: slots_ok_def slots_def)
    next
      assume "\<exists>f. futures (submit st pi) = futures st @ [f]"
      then obtain f where f: "futures (submit st pi) = futures st @ [f]" by blast
      show ?thesis
      proof (cases "int (length (futures st)) < max_parallel_items st")
        case True
        then show ?thesis using sub(2) f submit_frame[of st pi]
          by (simp add: slots_ok_def slots_def)
      next
        case False
        then have "list_ex (item_done (clock st)) (futures st)"
          using sub(1) next_future_nonneg by simp
        then show ?thesis using sub(2) f submit_frame[of st pi] assms
          by (auto simp: slots_ok_def slots_def)
      qed
    qed
  next
    case same
    then show ?thesis using assms by (simp add: slots_ok_def slots_def)
  qed
qed

lemma fetch_slots:
  assumes "slots_ok st None" and "fetch st = (r, st')"
  shows "int (length (futures st')) \<le> slots st'"
  using assms fetch_frame[OF assms(2)] by (auto simp: slots_ok_def slots_def)

lemma list_ex_done_mono:
  "list_ex (item_done t) fs \<Longrightarrow> list_ex (item_done (t + d)) fs"
  by (auto simp: list_ex_iff intro: item_done_mono)

lemma reachable_slots: "reachable cp st c \<Longrightarrow> slots_ok st c"
proof (induction rule: reachable.induct)
  case (created st)
  then show ?case by (simp add: slots_ok_def slots_def)
next
  case (fetched st pi st')
  with fetch_slots[of st "Inr (Some pi)" st'] show ?case by (simp add: slots_ok_def)
next
  case (fetch_raised st e st')
  with fetch_slots[of st "Inl e" st'] show ?case by (simp add: slots_ok_def)
next
  case (fetched_nothing st st')
  with fetch_slots[of st "Inr None" st'] show ?case by (simp add: slots_ok_def)
next
  case (processed st pi)
  then have "int (length (futures st)) \<le> slots st" by (simp add: slots_ok_def)
  from process_slots[OF this] show ?case .
next
  case (closed st)
  then show ?case by (simp add: slots_ok_def slots_def close_def Let_def split: option.splits)
next
  case (time_passes st c d)
  then show ?case by (auto simp: slots_ok_def slots_def intro: list_ex_done_mono)
qed

text \<open>The passes of the loop in \<^verbatim>\<open>__next__\<close> go through these moments.\<close>

lemma reachable_loop_body:
  assumes "reachable cp st c"
  shows "reachable cp (result_state (loop_body cp st c)) (result_carry (loop_body cp st c))"
proof (cases c)
  case (Some pi)
  then show ?thesis using assms reachable.processed[of cp st pi] by (simp add: loop_body_def)
next
  case None
  obtain r st1 where f: "fetch st = (r, st1)" by (cases "fetch st")
  show ?thesis
  proof (cases r)
    case (Inl e)
    then show ?thesis using None f assms reachable.fetch_raised[of cp st e st1]
      by (simp add: loop_body_def)
  next
    case (Inr o1)
    show ?thesis
    proof (cases o1)
      case (Some pi)
      then have "reachable cp st1 (Some pi)"
        using None Inr f assms reachable.fetched[of cp st pi st1] by simp
      from reachable.processed[OF this] Some Inr None f
      show ?thesis by (simp add: loop_body_def)
    next
      case None
      then have r1: "reachable cp st1 None"
        using \<open>c = None\<close> Inr f assms reachable.fetched_nothing[of cp st st1] by simp
      from reachable.time_passes[OF r1, of 1] have "reachable cp (sleep st1) None"
        by (simp add: sleep_def)
      with r1 None Inr \<open>c = None\<close> f show ?thesis by (simp add: loop_body_def)
    qed
  qed
qed

lemma reachable_next_loop:
  "reachable cp st c \<Longrightarrow> next_loop cp n st c = Some (r, st') \<Longrightarrow> reachable cp st' None"
proof (induction n arbitrary: st c)
  case 0
  then show ?case by simp
next
  case (Suc n)
  from reachable_loop_body[OF Suc.prems(1)] Suc.prems(2) Suc.IH
  show ?case by (cases "loop_body cp st c") auto
qed

lemma slots_in_flight:
  assumes "slots_ok st c"
  shows "int (in_flight st) \<le> slots st"
proof (cases "int (length (futures st)) \<le> slots st")
  case True
  have "in_flight st \<le> length (futures st)" by (simp add: in_flight_def)
  with True show ?thesis by linarith
next
  case False
  then have l: "int (length (futures st)) = slots st + 1"
    and "list_ex (item_done (clock st)) (futures st)"
    using assms by (auto simp: slots_ok_def)
  then obtain f where "f \<in> set (futures st)" "item_done (clock st) f"
    by (auto simp: list_ex_iff)
  then have "in_flight st < length (futures st)"
    unfolding in_flight_def by (intro length_filter_less) auto
  with l show ?thesis by linarith
qed

text \<open>
  C1. At every moment of a dispatcher the futures in flight are at most
  \<^verbatim>\<open>max_parallel_items\<close> (with a negative setting, for which no number of futures is
  small enough, none is in flight); the dispatcher a call of \<^verbatim>\<open>__next__\<close> leaves is at
  such a moment again. A pass that changes the futures list while it handles an item
  appends one future, and does so only when the list has fewer than
  \<^verbatim>\<open>max_parallel_items\<close> entries or one of them is done.
\<close>

theorem in_flight_at_most_max_parallel_items:
  "(reachable cp st c \<and> 0 \<le> max_parallel_items st
      \<longrightarrow> int (in_flight st) \<le> max_parallel_items st)
   \<and> (reachable cp st c \<and> max_parallel_items st < 0 \<longrightarrow> in_flight st = 0)
   \<and> (reachable cp st None \<and> pipe_next cp n st = Some (r, st1) \<longrightarrow> reachable cp st1 None)
   \<and> (process cp st pi = Continue c' st' \<and> futures st' \<noteq> futures st
      \<longrightarrow> (\<exists>f. futures st' = futures st @ [f])
          \<and> (int (length (futures st)) < max_parallel_items st
               \<or> list_ex (item_done (clock st)) (futures st)))"
proof -
  have s: "reachable cp st c \<longrightarrow> int (in_flight st) \<le> slots st"
    using reachable_slots[of cp st c] slots_in_flight[of st c] by blast
  have a: "reachable cp st c \<and> 0 \<le> max_parallel_items st
      \<longrightarrow> int (in_flight st) \<le> max_parallel_items st"
    using s by (auto simp: slots_def)
  have z: "reachable cp st c \<and> max_parallel_items st < 0 \<longrightarrow> in_flight st = 0"
    using s by (auto simp: slots_def)
  have b: "process cp st pi = Continue c' st' \<and> futures st' \<noteq> futures st
      \<longrightarrow> (\<exists>f. futures st' = futures st @ [f])
          \<and> (int (length (futures st)) < max_parallel_items st
               \<or> list_ex (item_done (clock st)) (futures st))"
    using process_cases[of cp st pi] submit_futures[of st pi] next_future_nonneg[of st]
    by (auto simp: sleep_def)
  have n: "reachable cp st None \<and> pipe_next cp n st = Some (r, st1) \<longrightarrow> reachable cp st1 None"
    using reachable_next_loop[of cp st None n r st1] by (simp add: pipe_next_def)
  from a z b n show ?thesis by blast
qed

lemma thunk_pass:
  "loop_body id thunk_state None = Continue None
     (thunk_state\<lparr>sources := [SourcePipeItem (IIter (\<lambda>k. if k < 1 then Some (Inr ([IThunk (Inr (IInt 4))] ! k)) else None) 1) 0 0 INone],
                  thread_pool := True, submitted := 1,
                  futures := [FuturePipeItem (Future (Some 2) (Some (Inr (IInt 4)))) 0 0 INone]\<rparr>)"
  by (simp add: loop_body_def fetch_def thunk_state_def idle_state_def get_source_item.simps
      iter_of_list_def process_def submit_def new_future_def)

theorem in_flight_at_most_max_parallel_items_witness:
  "\<exists>st1. loop_body id thunk_state None = Continue None st1
         \<and> futures st1 = [FuturePipeItem (Future (Some 2) (Some (Inr (IInt 4)))) 0 0 INone]
         \<and> max_parallel_items st1 = 1
         \<and> int (in_flight st1) \<le> max_parallel_items st1"
proof -
  let ?st1 = "thunk_state\<lparr>sources := [SourcePipeItem (IIter (\<lambda>k. if k < 1 then Some (Inr ([IThunk (Inr (IInt 4))] ! k)) else None) 1) 0 0 INone],
                  thread_pool := True, submitted := 1,
                  futures := [FuturePipeItem (Future (Some 2) (Some (Inr (IInt 4)))) 0 0 INone]\<rparr>"
  have "reachable id thunk_state None"
    by (rule reachable.created) (simp add: thunk_state_def idle_state_def)
  from reachable_loop_body[OF this] have r: "reachable id ?st1 None"
    by (simp add: thunk_pass)
  have m: "max_parallel_items ?st1 = 1" by (simp add: thunk_state_def)
  have "int (in_flight ?st1) \<le> max_parallel_items ?st1"
    using in_flight_at_most_max_parallel_items[of id ?st1 None] r m by simp
  then show ?thesis using thunk_pass m by simp
qed

end
